theory Spec2Isabelle
  imports Main
begin

section \<open>JavaScript values\<close>

text \<open>
  The values that flow through getters, setters and callbacks. \<open>Num\<close> stands for every
  number other than not-a-number, \<open>Ref\<close> for a reference to a heap object (plain object
  or array). Strict equality \<open>===\<close> is equality of these values, except that \<open>NaN\<close> is
  not equal to itself.
\<close>

datatype jsval = Undefined | Null | Bool bool | NaN | Num int | Str string | Ref nat

definition strict_eq :: "jsval \<Rightarrow> jsval \<Rightarrow> bool" where
  "strict_eq a b = (a = b \<and> a \<noteq> NaN)"

text \<open>\<open>isObject\<close> of the utilities: \<open>obj !== null && typeof obj === 'object'\<close>.\<close>

definition isObject :: "jsval \<Rightarrow> bool" where
  "isObject v = (case v of Ref a \<Rightarrow> True | _ \<Rightarrow> False)"

section \<open>The state: Dep objects, Watcher objects, the target stack\<close>

text \<open>
  A \<open>Dep\<close> is identified by its \<open>id\<close> (\<open>uid++\<close> in its constructor), a \<open>Watcher\<close> by its
  \<open>id\<close> (\<open>++uid\<close>). The getter and the callback of a watcher are JavaScript functions;
  what one call of them does is given to the operations below as a script (type \<open>code\<close>).
\<close>

record watcher =
  vm :: nat
  deep :: bool
  user :: bool
  lazy :: bool
  sync :: bool
  dirty :: bool
  active :: bool
  deps :: "nat list"
  newDeps :: "nat list"
  depIds :: "nat set"
  newDepIds :: "nat set"
  wvalue :: jsval

record component =
  vm_watchers :: "nat list"
  isBeingDestroyed :: bool

text \<open>
  The trace records the calls a claim speaks about, in the order they happen:
  \<open>EvDepend w d\<close>: \<open>Dep.depend\<close> of dep \<open>d\<close> fired with watcher \<open>w\<close> as \<open>Dep.target\<close>
  (the call \<open>Dep.target.addDep(this)\<close>);
  \<open>EvNotify d\<close>: \<open>Dep.notify\<close> entered; \<open>EvUpdate w\<close>: \<open>Watcher.update\<close> entered;
  \<open>EvCallback w v old\<close>: \<open>cb.call(vm, value, oldValue)\<close>;
  \<open>EvHandleError e\<close>: \<open>handleError(e, ...)\<close>; \<open>EvQueue w\<close>: \<open>queueWatcher(w)\<close>;
  \<open>EvWarn\<close>: \<open>warn(...)\<close>; \<open>EvGetterCall g\<close> and \<open>EvSetterCall t v\<close>: a getter or
  setter function of the user called; \<open>EvCustomSetter c\<close>: the \<open>customSetter\<close> of a
  reactive property called.
\<close>

datatype event =
    EvDepend nat nat
  | EvNotify nat
  | EvUpdate nat
  | EvCallback nat jsval jsval
  | EvHandleError jsval
  | EvQueue nat
  | EvWarn
  | EvGetterCall nat
  | EvSetterCall nat jsval
  | EvCustomSetter nat

record state =
  subs :: "nat \<Rightarrow> nat list"
  watchers :: "nat \<Rightarrow> watcher"
  vms :: "nat \<Rightarrow> component"
  target :: "nat option"
  targetStack :: "nat option list"
  trace :: "event list"
  dev :: bool
  async :: bool

text \<open>
  \<open>dev\<close> is \<open>process.env.NODE_ENV !== 'production'\<close>, \<open>async\<close> is \<open>config.async\<close>.
  \<open>target\<close> is \<open>Dep.target\<close>; \<open>null\<close> and \<open>undefined\<close> are both \<open>None\<close>.
\<close>

definition emit :: "event \<Rightarrow> 'z state_scheme \<Rightarrow> 'z state_scheme" where
  "emit e s = s\<lparr>trace := trace s @ [e]\<rparr>"

section \<open>Dep (src/unnamed/part\_000)\<close>

text \<open>
  Modelled from the spec: \<open>remove\<close> of the utilities is not among the sources; the spec
  says of \<open>removeSub\<close> "list membership add/remove by identity". It removes the first
  occurrence of the item, if there is one.
\<close>

definition remove_arr :: "'a list \<Rightarrow> 'a \<Rightarrow> 'a list" where
  "remove_arr arr item = remove1 item arr"

definition addSub :: "nat \<Rightarrow> nat \<Rightarrow> 'z state_scheme \<Rightarrow> 'z state_scheme" where
  "addSub d w s = s\<lparr>subs := (subs s)(d := subs s d @ [w])\<rparr>"

definition removeSub :: "nat \<Rightarrow> nat \<Rightarrow> 'z state_scheme \<Rightarrow> 'z state_scheme" where
  "removeSub d w s = s\<lparr>subs := (subs s)(d := remove_arr (subs s d) w)\<rparr>"

definition pushTarget :: "nat option \<Rightarrow> 'z state_scheme \<Rightarrow> 'z state_scheme" where
  "pushTarget t s = s\<lparr>targetStack := targetStack s @ [t], target := t\<rparr>"

text \<open>
  \<open>targetStack.pop()\<close> on an empty array does nothing, and \<open>targetStack[-1]\<close> is
  \<open>undefined\<close>.
\<close>

definition stackTop :: "nat option list \<Rightarrow> nat option" where
  "stackTop st = (if st = [] then None else last st)"

definition popTarget :: "'z state_scheme \<Rightarrow> 'z state_scheme" where
  "popTarget s =
     (let st = butlast (targetStack s)
      in s\<lparr>targetStack := st, target := stackTop st\<rparr>)"

section \<open>Watcher (src/src/core/observer/watcher.js)\<close>

definition addDep :: "nat \<Rightarrow> nat \<Rightarrow> 'z state_scheme \<Rightarrow> 'z state_scheme" where
  "addDep w d s =
     (let W = watchers s w
      in if d \<notin> newDepIds W then
           let s1 = s\<lparr>watchers := (watchers s)
                      (w := W\<lparr>newDepIds := insert d (newDepIds W),
                              newDeps := newDeps W @ [d]\<rparr>)\<rparr>
           in if d \<notin> depIds W then addSub d w s1 else s1
         else s)"

definition depend :: "nat \<Rightarrow> 'z state_scheme \<Rightarrow> 'z state_scheme" where
  "depend d s =
     (case target s of
        Some w \<Rightarrow> addDep w d (emit (EvDepend w d) s)
      | None \<Rightarrow> s)"

text \<open>The \<open>while (i--)\<close> loop of \<open>cleanupDeps\<close> walks \<open>deps\<close> from its last element.\<close>

definition cleanupDeps :: "nat \<Rightarrow> 'z state_scheme \<Rightarrow> 'z state_scheme" where
  "cleanupDeps w s =
     (let W = watchers s w;
          s1 = fold (\<lambda>d t. if d \<notin> newDepIds W then removeSub d w t else t) (rev (deps W)) s;
          W1 = watchers s1 w
      in s1\<lparr>watchers := (watchers s1)
              (w := W1\<lparr>depIds := newDepIds W1, newDepIds := {},
                       deps := newDeps W1, newDeps := []\<rparr>)\<rparr>)"

text \<open>
  Modelled from the spec: \<open>handleError\<close> is not among the sources; "Error handler: receives
  (error, owning-scope, description) for failures in user getters/callbacks". It records
  the error and returns.
\<close>

definition handleError :: "jsval \<Rightarrow> 'z state_scheme \<Rightarrow> 'z state_scheme" where
  "handleError e s = emit (EvHandleError e) s"

text \<open>
  Modelled from the spec: \<open>traverse\<close> is not among the sources; "given a value, visits every
  reachable property exactly once, cycle-safe, purely to force accessor reads". The deps
  of the accessors it reads for a value are given by \<open>trav\<close>; each read is a \<open>depend\<close>.
\<close>

definition traverse :: "(jsval \<Rightarrow> nat list) \<Rightarrow> jsval \<Rightarrow> 'z state_scheme \<Rightarrow> 'z state_scheme" where
  "traverse trav v s = fold depend (trav v) s"

text \<open>
  \<open>Watcher.get\<close>, for any behaviour of \<open>this.getter.call(vm, vm)\<close>: a function from the
  state to a thrown error (\<open>Inl\<close>) or a returned value (\<open>Inr\<close>) and the state it leaves.
  The \<open>catch\<close> hands the error of a user watcher to \<open>handleError\<close> and rethrows any other;
  the \<open>finally\<close> runs on both paths, and \<open>value\<close> is still \<open>undefined\<close> when the getter threw.
\<close>

definition get_with ::
  "(jsval \<Rightarrow> nat list) \<Rightarrow> ('z state_scheme \<Rightarrow> (jsval + jsval) \<times> 'z state_scheme) \<Rightarrow> nat
     \<Rightarrow> 'z state_scheme \<Rightarrow> (jsval + jsval) \<times> 'z state_scheme" where
  "get_with trav getter w s =
     (let s1 = pushTarget (Some w) s;
          (r, s2) = getter s1;
          v = (case r of Inr x \<Rightarrow> x | Inl e \<Rightarrow> Undefined);
          (r', s3) = (case r of
                        Inr x \<Rightarrow> (Inr x, s2)
                      | Inl e \<Rightarrow> if user (watchers s2 w) then (Inr Undefined, handleError e s2)
                                 else (Inl e, s2));
          s4 = (if deep (watchers s3 w) then traverse trav v s3 else s3);
          s5 = cleanupDeps w (popTarget s4)
      in (r', s5))"

text \<open>
  \<open>teardown\<close>: \<open>remove(this.vm._watchers, this)\<close> unless the vm is being destroyed, then
  \<open>removeSub\<close> on every dep of \<open>deps\<close> from the last, then \<open>active = false\<close>.
\<close>

definition teardown :: "nat \<Rightarrow> 'z state_scheme \<Rightarrow> 'z state_scheme" where
  "teardown w s =
     (let W = watchers s w
      in if active W then
           let c = vms s (vm W);
               s1 = (if \<not> isBeingDestroyed c
                     then s\<lparr>vms := (vms s)(vm W := c\<lparr>vm_watchers := remove_arr (vm_watchers c) w\<rparr>)\<rparr>
                     else s);
               s2 = fold (\<lambda>d t. removeSub d w t) (rev (deps W)) s1
           in s2\<lparr>watchers := (watchers s2)(w := (watchers s2 w)\<lparr>active := False\<rparr>)\<rparr>
         else s)"

section \<open>What a getter or a callback does\<close>

text \<open>
  One call of a getter or callback, as the sequence of its dealings with the tracking
  system: it returns or throws; it reads a reactive property (\<open>Depend d\<close>: the \<open>depend\<close> of
  the property's dep); it makes a watcher evaluate (\<open>Eval w g\<close>: \<open>w.get()\<close>, during which
  the getter of \<open>w\<close> does \<open>g\<close>; an error rethrown by that \<open>get\<close> ends the script); it
  tears a watcher down (\<open>Teardown w\<close>).
\<close>

datatype code =
    Return jsval
  | Throw jsval
  | Depend nat code
  | Eval nat code code
  | Teardown nat code

primrec exec ::
  "code \<Rightarrow> (jsval \<Rightarrow> nat list) \<Rightarrow> 'z state_scheme \<Rightarrow> (jsval + jsval) \<times> 'z state_scheme" where
  "exec (Return v) trav s = (Inr v, s)"
| "exec (Throw e) trav s = (Inl e, s)"
| "exec (Depend d k) trav s = exec k trav (depend d s)"
| "exec (Eval w g k) trav s =
     (case get_with trav (exec g trav) w s of
        (Inl e, s') \<Rightarrow> (Inl e, s')
      | (Inr v, s') \<Rightarrow> exec k trav s')"
| "exec (Teardown w k) trav s = exec k trav (teardown w s)"

definition get ::
  "(jsval \<Rightarrow> nat list) \<Rightarrow> nat \<Rightarrow> code \<Rightarrow> 'z state_scheme \<Rightarrow> (jsval + jsval) \<times> 'z state_scheme" where
  "get trav w g s = get_with trav (exec g trav) w s"


text \<open>
  The behaviour of the watchers during one round of notification: for each watcher the
  script of its getter and the script of its callback.
\<close>

record behaviour =
  getter :: code
  cb :: code

text \<open>
  \<open>run\<close>: nothing unless active; an error rethrown by \<open>get\<close> leaves \<open>run\<close>; the callback
  is called when the value differs (\<open>!==\<close>), is an object, or the watcher is deep; a
  throwing callback of a user watcher goes to \<open>handleError\<close>, any other error leaves \<open>run\<close>.
  The result is the error that leaves the call, if any.
\<close>

definition run ::
  "(nat \<Rightarrow> behaviour) \<Rightarrow> (jsval \<Rightarrow> nat list) \<Rightarrow> nat \<Rightarrow> 'z state_scheme
     \<Rightarrow> jsval option \<times> 'z state_scheme" where
  "run env trav w s =
     (if active (watchers s w) then
        (case get trav w (getter (env w)) s of
           (Inl e, s1) \<Rightarrow> (Some e, s1)
         | (Inr v, s1) \<Rightarrow>
             (let W = watchers s1 w
              in if \<not> strict_eq v (wvalue W) \<or> isObject v \<or> deep W then
                   let oldValue = wvalue W;
                       s2 = s1\<lparr>watchers := (watchers s1)(w := W\<lparr>wvalue := v\<rparr>)\<rparr>;
                       s3 = emit (EvCallback w v oldValue) s2
                   in (case exec (cb (env w)) trav s3 of
                         (Inl e, s4) \<Rightarrow>
                           if user W then (None, handleError e s4) else (Some e, s4)
                       | (Inr x, s4) \<Rightarrow> (None, s4))
                 else (None, s1)))
      else (None, s))"

text \<open>
  Modelled from the spec: \<open>queueWatcher\<close> of the scheduler is not among the sources;
  "default: hand off to the external scheduler for deduplicated, ordered, deferred
  execution". The hand-off is recorded; nothing runs.
\<close>

definition queueWatcher :: "nat \<Rightarrow> 'z state_scheme \<Rightarrow> 'z state_scheme" where
  "queueWatcher w s = emit (EvQueue w) s"

definition update ::
  "(nat \<Rightarrow> behaviour) \<Rightarrow> (jsval \<Rightarrow> nat list) \<Rightarrow> nat \<Rightarrow> 'z state_scheme
     \<Rightarrow> jsval option \<times> 'z state_scheme" where
  "update env trav w s =
     (let s0 = emit (EvUpdate w) s;
          W = watchers s0 w
      in if lazy W then (None, s0\<lparr>watchers := (watchers s0)(w := W\<lparr>dirty := True\<rparr>)\<rparr>)
         else if sync W then run env trav w s0
         else (None, queueWatcher w s0))"

text \<open>
  \<open>Dep.notify\<close>: \<open>subs.slice()\<close>, sorted by id when \<open>dev\<close> and not \<open>config.async\<close>, then
  \<open>update\<close> on each element in turn; an error thrown by an \<open>update\<close> leaves the loop.
\<close>

fun notify_loop ::
  "(nat \<Rightarrow> behaviour) \<Rightarrow> (jsval \<Rightarrow> nat list) \<Rightarrow> nat list \<Rightarrow> 'z state_scheme
     \<Rightarrow> jsval option \<times> 'z state_scheme" where
  "notify_loop env trav [] s = (None, s)"
| "notify_loop env trav (w # ws) s =
     (case update env trav w s of
        (Some e, s') \<Rightarrow> (Some e, s')
      | (None, s') \<Rightarrow> notify_loop env trav ws s')"

definition notify ::
  "(nat \<Rightarrow> behaviour) \<Rightarrow> (jsval \<Rightarrow> nat list) \<Rightarrow> nat \<Rightarrow> 'z state_scheme
     \<Rightarrow> jsval option \<times> 'z state_scheme" where
  "notify env trav d s =
     (let snapshot = subs s d;
          ordered = (if dev s \<and> \<not> async s then sort snapshot else snapshot)
      in notify_loop env trav ordered (emit (EvNotify d) s))"

section \<open>Objects, observers and reactive properties (src/src/core/observer/index.js)\<close>

text \<open>
  A property key is an array index (a number or numeric string that \<open>isValidArrayIndex\<close>
  accepts) or any other name.
\<close>

datatype key = Index nat | Name string

text \<open>
  An own property is a data property, an accessor property with functions of the user
  (each optional), or the accessor pair installed by \<open>defineReactive\<close>. The flag is
  \<open>configurable\<close>; data properties are writable. A function of the user is named by the
  slot of the user's data it reads (a getter) or writes (a setter); it does not throw.
  \<open>Reactive c\<close> names the closure of one \<open>defineReactive\<close> call by the id of the \<open>Dep\<close> it
  created.
\<close>

datatype property =
    Data jsval bool
  | Accessor "nat option" "nat option" bool
  | Reactive nat

datatype okind = PlainObject | ArrayObject

text \<open>
  A heap object: its own named properties, its elements when it is an array, \<open>__ob__\<close>
  (the Observer, named by the id of its dep), \<open>_isVue\<close>, and the keys found on its
  prototype chain (those of \<open>Object.prototype\<close> for an object literal).
\<close>

record obj =
  kind :: okind
  props :: "key \<Rightarrow> property option"
  elems :: "jsval list"
  ob :: "nat option"
  isVue :: bool
  proto :: "key list"

record observer =
  ob_value :: nat
  vmCount :: nat

text \<open>
  The variables a \<open>defineReactive\<close> call closes over: \<open>obj\<close>, \<open>key\<close>, \<open>val\<close>, the getter and
  setter of the property it replaced, whether a \<open>customSetter\<close> was given, \<open>shallow\<close>, and
  \<open>childOb\<close>. Its \<open>dep\<close> is the index of the closure.
\<close>

record cell =
  c_obj :: nat
  c_key :: key
  c_val :: jsval
  c_getter :: "nat option"
  c_setter :: "nat option"
  c_customSetter :: bool
  c_shallow :: bool
  c_childOb :: "nat option"

record world = state +
  objs :: "nat \<Rightarrow> obj"
  cells :: "nat \<Rightarrow> cell"
  observers :: "nat \<Rightarrow> observer"
  ustore :: "nat \<Rightarrow> jsval"
  dep_uid :: nat

datatype exn = TypeError | Raised jsval | OutsideModel

text \<open>
  \<open>observe\<close> attaches Observers through \<open>walk\<close>, \<open>observeArray\<close> and \<open>defineReactive\<close>,
  following the references of the heap. The accessors and \<open>set\<close> only call it and keep what
  it returns, so it enters the operations below as a function from the value and the state
  to the Observer found or made (none for a value that is not observed) and the new state.
\<close>

type_synonym observe_fn = "jsval \<Rightarrow> world \<Rightarrow> nat option \<times> world"

definition call_getter :: "nat \<Rightarrow> world \<Rightarrow> jsval \<times> world" where
  "call_getter g s = (ustore s g, emit (EvGetterCall g) s)"

definition call_setter :: "nat \<Rightarrow> jsval \<Rightarrow> world \<Rightarrow> world" where
  "call_setter t v s = (emit (EvSetterCall t v) s)\<lparr>ustore := (ustore s)(t := v)\<rparr>"

text \<open>
  The comparison of \<open>reactiveSetter\<close>:
  \<open>newVal === value || (newVal !== newVal && value !== value)\<close>.
\<close>

definition same_value :: "jsval \<Rightarrow> jsval \<Rightarrow> bool" where
  "same_value newVal v =
     (strict_eq newVal v \<or> (\<not> strict_eq newVal newVal \<and> \<not> strict_eq v v))"

text \<open>
  The steps of \<open>reactiveSetter\<close>. \<open>getter\<close>, \<open>setter\<close>, \<open>customSetter\<close> and \<open>shallow\<close> are
  constants of the closure (read from the cell \<open>C\<close> as it is on entry); \<open>val\<close> and
  \<open>childOb\<close> are its variables.
\<close>

definition current_value :: "cell \<Rightarrow> world \<Rightarrow> jsval \<times> world" where
  "current_value C s = (case c_getter C of Some g \<Rightarrow> call_getter g s | None \<Rightarrow> (c_val C, s))"

definition call_customSetter :: "cell \<Rightarrow> nat \<Rightarrow> world \<Rightarrow> world" where
  "call_customSetter C c s = (if dev s \<and> c_customSetter C then emit (EvCustomSetter c) s else s)"

definition store_value :: "cell \<Rightarrow> nat \<Rightarrow> jsval \<Rightarrow> world \<Rightarrow> world" where
  "store_value C c newVal s =
     (case c_setter C of
        Some t \<Rightarrow> call_setter t newVal s
      | None \<Rightarrow> s\<lparr>cells := (cells s)(c := (cells s c)\<lparr>c_val := newVal\<rparr>)\<rparr>)"

definition observe_child :: "observe_fn \<Rightarrow> cell \<Rightarrow> nat \<Rightarrow> jsval \<Rightarrow> world \<Rightarrow> world" where
  "observe_child obs C c newVal s =
     (let (co, s') = (if c_shallow C then (None, s) else obs newVal s)
      in s'\<lparr>cells := (cells s')(c := (cells s' c)\<lparr>c_childOb := co\<rparr>)\<rparr>)"

definition reactiveSetter ::
  "observe_fn \<Rightarrow> (nat \<Rightarrow> behaviour) \<Rightarrow> (jsval \<Rightarrow> nat list) \<Rightarrow> nat \<Rightarrow> jsval \<Rightarrow> world
     \<Rightarrow> jsval option \<times> world" where
  "reactiveSetter obs env trav c newVal s =
     (let C = cells s c;
          (v, s1) = current_value C s
      in if same_value newVal v then (None, s1)
         else
           let s2 = call_customSetter C c s1
           in if c_getter C \<noteq> None \<and> c_setter C = None then (None, s2)
              else notify env trav c (observe_child obs C c newVal (store_value C c newVal s2)))"

text \<open>
  \<open>defineReactive(obj, key, val)\<close> with \<open>customSetter\<close> and \<open>shallow\<close> not given, as \<open>set\<close>
  calls it; \<open>val\<close> is \<open>None\<close> for a call with two arguments. A property that is already
  reactive would hand its own accessor pair to the new closure as getter and setter; that
  is outside this model, and the result is \<open>None\<close> there.
\<close>

definition read_prop :: "nat \<Rightarrow> key \<Rightarrow> world \<Rightarrow> jsval \<times> world" where
  "read_prop a k s =
     (case props (objs s a) k of
        Some (Data v cfg) \<Rightarrow> (v, s)
      | Some (Accessor (Some g) t cfg) \<Rightarrow> call_getter g s
      | _ \<Rightarrow> (Undefined, s))"

definition defineReactive ::
  "observe_fn \<Rightarrow> nat \<Rightarrow> key \<Rightarrow> jsval option \<Rightarrow> world \<Rightarrow> world option" where
  "defineReactive obs a k val s =
     (let d = dep_uid s;
          s1 = s\<lparr>dep_uid := Suc d, subs := (subs s)(d := [])\<rparr>;
          property = props (objs s1 a) k
      in case property of
           Some (Reactive c') \<Rightarrow> None
         | _ \<Rightarrow>
           if (case property of Some (Data v cfg) \<Rightarrow> \<not> cfg
                              | Some (Accessor g t cfg) \<Rightarrow> \<not> cfg | _ \<Rightarrow> False)
           then Some s1
           else
             let gt = (case property of Some (Accessor g t cfg) \<Rightarrow> g | _ \<Rightarrow> None);
                 st = (case property of Some (Accessor g t cfg) \<Rightarrow> t | _ \<Rightarrow> None);
                 (v, s2) = (case val of
                              Some x \<Rightarrow> (x, s1)
                            | None \<Rightarrow> if gt = None \<or> st \<noteq> None then read_prop a k s1
                                      else (Undefined, s1));
                 (co, s3) = obs v s2;
                 C = \<lparr>c_obj = a, c_key = k, c_val = v, c_getter = gt, c_setter = st,
                      c_customSetter = False, c_shallow = False, c_childOb = co\<rparr>
             in Some (s3\<lparr>cells := (cells s3)(d := C),
                        objs := (objs s3)(a := (objs s3 a)
                                  \<lparr>props := (props (objs s3 a))(k := Some (Reactive d))\<rparr>)\<rparr>))"

text \<open>The keys of \<open>Object.prototype\<close>: what \<open>key in Object.prototype\<close> tests.\<close>

definition objectPrototypeKeys :: "string list" where
  "objectPrototypeKeys =
     [''constructor'', ''__defineGetter__'', ''__defineSetter__'', ''hasOwnProperty'',
      ''__lookupGetter__'', ''__lookupSetter__'', ''isPrototypeOf'', ''propertyIsEnumerable'',
      ''toString'', ''valueOf'', ''__proto__'', ''toLocaleString'']"

definition in_object_prototype :: "key \<Rightarrow> bool" where
  "in_object_prototype k = (case k of Name n \<Rightarrow> n \<in> set objectPrototypeKeys | Index i \<Rightarrow> False)"

text \<open>\<open>key in target\<close> for an object: an own property or a key of its prototype chain.\<close>

definition has_key :: "obj \<Rightarrow> key \<Rightarrow> bool" where
  "has_key X k = (props X k \<noteq> None \<or> k \<in> set (proto X))"

text \<open>
  Modelled from the spec: \<open>hasOwn\<close>, \<open>isUndef\<close>, \<open>isPrimitive\<close> and \<open>isValidArrayIndex\<close> of
  the utilities are not among the sources; the spec speaks of "an existing own key",
  "undefined/null/primitive targets" and "an array with a valid index".
\<close>

definition hasOwn :: "obj \<Rightarrow> key \<Rightarrow> bool" where
  "hasOwn X k = (props X k \<noteq> None)"

definition isUndef :: "jsval \<Rightarrow> bool" where
  "isUndef v = (v = Undefined \<or> v = Null)"

definition isPrimitive :: "jsval \<Rightarrow> bool" where
  "isPrimitive v = (case v of Str x \<Rightarrow> True | Num n \<Rightarrow> True | NaN \<Rightarrow> True | Bool b \<Rightarrow> True
                            | _ \<Rightarrow> False)"

definition isValidArrayIndex :: "key \<Rightarrow> bool" where
  "isValidArrayIndex k = (case k of Index i \<Rightarrow> True | Name n \<Rightarrow> False)"

text \<open>
  \<open>target[key] = val\<close> in strict code: the setter of a reactive property (whose
  notification may throw), the setter of an accessor of the user (a \<open>TypeError\<close> when it
  has none), the value of a data property, or a new data property.
\<close>

definition assign ::
  "observe_fn \<Rightarrow> (nat \<Rightarrow> behaviour) \<Rightarrow> (jsval \<Rightarrow> nat list) \<Rightarrow> nat \<Rightarrow> key \<Rightarrow> jsval \<Rightarrow> world
     \<Rightarrow> exn option \<times> world" where
  "assign obs env trav a k val s =
     (case props (objs s a) k of
        Some (Reactive c) \<Rightarrow>
          (case reactiveSetter obs env trav c val s of
             (Some e, s') \<Rightarrow> (Some (Raised e), s')
           | (None, s') \<Rightarrow> (None, s'))
      | Some (Accessor g (Some t) cfg) \<Rightarrow> (None, call_setter t val s)
      | Some (Accessor g None cfg) \<Rightarrow> (Some TypeError, s)
      | Some (Data v cfg) \<Rightarrow>
          (None, s\<lparr>objs := (objs s)(a := (objs s a)
                     \<lparr>props := (props (objs s a))(k := Some (Data val cfg))\<rparr>)\<rparr>)
      | None \<Rightarrow>
          (None, s\<lparr>objs := (objs s)(a := (objs s a)
                     \<lparr>props := (props (objs s a))(k := Some (Data val True))\<rparr>)\<rparr>))"

text \<open>
  Modelled from the spec: the array methods of \<open>./array\<close> are not among the sources; "each
  intercepted mutator performs the real mutation, observes any freshly inserted elements,
  and notifies the container's own Dependency afterward". \<open>splice(i, 1, val)\<close> after
  \<open>length = max(length, i)\<close> replaces element \<open>i\<close> or appends after the holes;
  \<open>splice(i, 1)\<close> removes element \<open>i\<close> if there is one. On an array without an
  Observer the native method only mutates.
\<close>

definition splice_set :: "jsval list \<Rightarrow> nat \<Rightarrow> jsval \<Rightarrow> jsval list" where
  "splice_set xs i val =
     (if i < length xs then xs[i := val] else xs @ replicate (i - length xs) Undefined @ [val])"

definition splice_del :: "jsval list \<Rightarrow> nat \<Rightarrow> jsval list" where
  "splice_del xs i = take i xs @ drop (Suc i) xs"

definition array_mutated ::
  "observe_fn \<Rightarrow> (nat \<Rightarrow> behaviour) \<Rightarrow> (jsval \<Rightarrow> nat list) \<Rightarrow> nat \<Rightarrow> jsval list
     \<Rightarrow> jsval option \<Rightarrow> world \<Rightarrow> exn option \<times> world" where
  "array_mutated obs env trav a xs inserted s =
     (let s1 = s\<lparr>objs := (objs s)(a := (objs s a)\<lparr>elems := xs\<rparr>)\<rparr>
      in case ob (objs s a) of
           None \<Rightarrow> (None, s1)
         | Some oid \<Rightarrow>
             (let s2 = (case inserted of Some v \<Rightarrow> snd (obs v s1) | None \<Rightarrow> s1)
              in case notify env trav oid s2 of
                   (Some e, s3) \<Rightarrow> (Some (Raised e), s3)
                 | (None, s3) \<Rightarrow> (None, s3)))"

definition rootTracked :: "world \<Rightarrow> obj \<Rightarrow> bool" where
  "rootTracked s X =
     (isVue X \<or> (case ob X of Some oid \<Rightarrow> vmCount (observers s oid) \<noteq> 0 | None \<Rightarrow> False))"

text \<open>
  \<open>set(target, key, val)\<close>. On a target that is not an object, \<open>Array.isArray\<close> is false and
  \<open>key in target\<close> throws a \<open>TypeError\<close>.
\<close>

definition set_op ::
  "observe_fn \<Rightarrow> (nat \<Rightarrow> behaviour) \<Rightarrow> (jsval \<Rightarrow> nat list) \<Rightarrow> jsval \<Rightarrow> key \<Rightarrow> jsval \<Rightarrow> world
     \<Rightarrow> (exn + jsval) \<times> world" where
  "set_op obs env trav tg k val s =
     (let s0 = (if dev s \<and> (isUndef tg \<or> isPrimitive tg) then emit EvWarn s else s)
      in case tg of
           Ref a \<Rightarrow>
             (let X = objs s0 a
              in if kind X = ArrayObject \<and> isValidArrayIndex k then
                   (case k of
                      Index i \<Rightarrow>
                        (case array_mutated obs env trav a (splice_set (elems X) i val) (Some val) s0 of
                           (Some e, s') \<Rightarrow> (Inl e, s')
                         | (None, s') \<Rightarrow> (Inr val, s'))
                    | Name n \<Rightarrow> (Inr val, s0))
                 else if has_key X k \<and> \<not> in_object_prototype k then
                   (case assign obs env trav a k val s0 of
                      (Some e, s') \<Rightarrow> (Inl e, s')
                    | (None, s') \<Rightarrow> (Inr val, s'))
                 else if rootTracked s0 X then
                   (Inr val, if dev s0 then emit EvWarn s0 else s0)
                 else
                   (case ob X of
                      None \<Rightarrow>
                        (case assign obs env trav a k val s0 of
                           (Some e, s') \<Rightarrow> (Inl e, s')
                         | (None, s') \<Rightarrow> (Inr val, s'))
                    | Some oid \<Rightarrow>
                        (case defineReactive obs (ob_value (observers s0 oid)) k (Some val) s0 of
                           None \<Rightarrow> (Inl OutsideModel, s0)
                         | Some s1 \<Rightarrow>
                             (case notify env trav oid s1 of
                                (Some e, s2) \<Rightarrow> (Inl (Raised e), s2)
                              | (None, s2) \<Rightarrow> (Inr val, s2)))))
         | _ \<Rightarrow> (Inl TypeError, s0))"

text \<open>
  \<open>del(target, key)\<close>. \<open>target.__ob__\<close> throws a \<open>TypeError\<close> on \<open>undefined\<close> and \<open>null\<close>; on
  another primitive it is \<open>undefined\<close>, and \<open>hasOwn\<close> is false except for \<open>length\<close> and the
  indices of a string, which \<open>delete\<close> refuses with a \<open>TypeError\<close> in strict code, as it
  does for a property that is not configurable.
\<close>

definition del ::
  "observe_fn \<Rightarrow> (nat \<Rightarrow> behaviour) \<Rightarrow> (jsval \<Rightarrow> nat list) \<Rightarrow> jsval \<Rightarrow> key \<Rightarrow> world
     \<Rightarrow> exn option \<times> world" where
  "del obs env trav tg k s =
     (let s0 = (if dev s \<and> (isUndef tg \<or> isPrimitive tg) then emit EvWarn s else s)
      in case tg of
           Ref a \<Rightarrow>
             (let X = objs s0 a
              in if kind X = ArrayObject \<and> isValidArrayIndex k then
                   (case k of
                      Index i \<Rightarrow> array_mutated obs env trav a (splice_del (elems X) i) None s0
                    | Name n \<Rightarrow> (None, s0))
                 else if rootTracked s0 X then
                   (None, if dev s0 then emit EvWarn s0 else s0)
                 else if \<not> hasOwn X k then (None, s0)
                 else if (case props X k of Some (Data v cfg) \<Rightarrow> \<not> cfg
                                          | Some (Accessor g t cfg) \<Rightarrow> \<not> cfg | _ \<Rightarrow> False)
                 then (Some TypeError, s0)
                 else
                   (let s1 = s0\<lparr>objs := (objs s0)(a := X\<lparr>props := (props X)(k := None)\<rparr>)\<rparr>
                    in case ob X of
                         None \<Rightarrow> (None, s1)
                       | Some oid \<Rightarrow>
                           (case notify env trav oid s1 of
                              (Some e, s2) \<Rightarrow> (Some (Raised e), s2)
                            | (None, s2) \<Rightarrow> (None, s2))))
         | Undefined \<Rightarrow> (Some TypeError, s0)
         | Null \<Rightarrow> (Some TypeError, s0)
         | Str x \<Rightarrow>
             (if k = Name ''length'' \<or> (case k of Index i \<Rightarrow> i < length x | Name n \<Rightarrow> False)
              then (Some TypeError, s0) else (None, s0))
         | _ \<Rightarrow> (None, s0))"

section \<open>Invariants and what the trace records\<close>

text \<open>\<open>Dep.target\<close> is the top of the target stack: what \<open>pushTarget\<close> and \<open>popTarget\<close> keep.\<close>

definition stack_ok :: "'z state_scheme \<Rightarrow> bool" where
  "stack_ok s = (target s = stackTop (targetStack s))"

text \<open>
  The invariant of the tracking data: the id sets of a watcher are the ids of its dep
  lists, a watcher is among the subscribers only of deps it holds, and no subscriber list
  holds a watcher twice.
\<close>

definition wf_watcher :: "nat \<Rightarrow> 'z state_scheme \<Rightarrow> bool" where
  "wf_watcher w s =
     (set (deps (watchers s w)) = depIds (watchers s w) \<and>
      set (newDeps (watchers s w)) = newDepIds (watchers s w) \<and>
      (\<forall>d. w \<in> set (subs s d) \<longrightarrow> d \<in> depIds (watchers s w) \<or> d \<in> newDepIds (watchers s w)))"

definition tracking_inv :: "'z state_scheme \<Rightarrow> bool" where
  "tracking_inv s = ((\<forall>w. wf_watcher w s) \<and> (\<forall>d. distinct (subs s d)))"

text \<open>
  What the trace says: the watchers updated, the callbacks of a watcher (new and old
  value), the deps whose \<open>depend\<close> reached a watcher, the errors handed to \<open>handleError\<close>,
  and the deps whose \<open>depend\<close> reached a watcher between two states.
\<close>

definition updates_of :: "event list \<Rightarrow> nat list" where
  "updates_of tr = List.map_filter (\<lambda>e. case e of EvUpdate w \<Rightarrow> Some w | _ \<Rightarrow> None) tr"

definition callbacks_of :: "nat \<Rightarrow> event list \<Rightarrow> (jsval \<times> jsval) list" where
  "callbacks_of w tr =
     List.map_filter (\<lambda>e. case e of EvCallback w' v old \<Rightarrow> if w' = w then Some (v, old) else None
                               | _ \<Rightarrow> None) tr"

definition depends_of :: "nat \<Rightarrow> event list \<Rightarrow> nat list" where
  "depends_of w tr =
     List.map_filter (\<lambda>e. case e of EvDepend w' d \<Rightarrow> if w' = w then Some d else None
                               | _ \<Rightarrow> None) tr"

definition handled_of :: "event list \<Rightarrow> jsval list" where
  "handled_of tr = List.map_filter (\<lambda>e. case e of EvHandleError x \<Rightarrow> Some x | _ \<Rightarrow> None) tr"

definition fired :: "nat \<Rightarrow> 'z state_scheme \<Rightarrow> 'z state_scheme \<Rightarrow> nat list" where
  "fired w s s' = drop (length (depends_of w (trace s))) (depends_of w (trace s'))"

text \<open>A script mentions a watcher when it makes it evaluate or tears it down, at any depth.\<close>

primrec mentions :: "nat \<Rightarrow> code \<Rightarrow> bool" where
  "mentions w (Return v) = False"
| "mentions w (Throw e) = False"
| "mentions w (Depend d k) = mentions w k"
| "mentions w (Eval w' g k) = (w' = w \<or> mentions w g \<or> mentions w k)"
| "mentions w (Teardown w' k) = (w' = w \<or> mentions w k)"

text \<open>The watcher is a subscriber of every dep it holds, in either generation.\<close>

definition subscribed :: "nat \<Rightarrow> 'z state_scheme \<Rightarrow> bool" where
  "subscribed w s =
     (\<forall>d. d \<in> depIds (watchers s w) \<or> d \<in> newDepIds (watchers s w) \<longrightarrow> w \<in> set (subs s d))"

text \<open>
  Two relations between a state and a later one, for the proofs: the watcher's record,
  its subscriptions and the \<open>depend\<close> calls that reached it are unchanged; or the watcher
  collected the deps \<open>fs\<close> into its new generation and nothing else of it changed.
\<close>

definition untouched :: "nat \<Rightarrow> 'z state_scheme \<Rightarrow> 'z state_scheme \<Rightarrow> bool" where
  "untouched w s s' =
     (watchers s' w = watchers s w \<and>
      (\<forall>d. (w \<in> set (subs s' d)) = (w \<in> set (subs s d))) \<and>
      depends_of w (trace s') = depends_of w (trace s))"

definition collects :: "nat \<Rightarrow> nat list \<Rightarrow> 'z state_scheme \<Rightarrow> 'z state_scheme \<Rightarrow> bool" where
  "collects w fs s s' =
     (depends_of w (trace s') = depends_of w (trace s) @ fs \<and>
      deps (watchers s' w) = deps (watchers s w) \<and>
      depIds (watchers s' w) = depIds (watchers s w) \<and>
      user (watchers s' w) = user (watchers s w) \<and>
      deep (watchers s' w) = deep (watchers s w) \<and>
      active (watchers s' w) = active (watchers s w) \<and>
      newDepIds (watchers s' w) = newDepIds (watchers s w) \<union> set fs \<and>
      (\<forall>d. (w \<in> set (subs s' d)) = (w \<in> set (subs s d) \<or> d \<in> set fs)))"

text \<open>
  A watcher between two evaluations: active, not collecting, and subscribed to the deps
  it holds, in a state that satisfies the invariant.
\<close>

definition consistent :: "nat \<Rightarrow> 'z state_scheme \<Rightarrow> bool" where
  "consistent w s =
     (active (watchers s w) \<and> tracking_inv s \<and>
      newDeps (watchers s w) = [] \<and> newDepIds (watchers s w) = {} \<and> subscribed w s)"

text \<open>
  A getter that only reads properties: the \<open>depend\<close> calls of \<open>ds\<close> in order, then a
  return or a throw. \<open>read_set\<close> is the set of deps such an evaluation reaches, those of
  \<open>traverse\<close> included for a deep watcher.
\<close>

definition reads :: "nat list \<Rightarrow> code \<Rightarrow> code" where
  "reads ds k = foldr Depend ds k"





text \<open>The deps whose \<open>notify\<close> the trace records.\<close>

definition notified_of :: "event list \<Rightarrow> nat list" where
  "notified_of tr = List.map_filter (\<lambda>e. case e of EvNotify d \<Rightarrow> Some d | _ \<Rightarrow> None) tr"

text \<open>The state after the warning of a development build.\<close>

definition warned :: "world \<Rightarrow> world" where
  "warned s = (if dev s then emit EvWarn s else s)"

section \<open>Example states\<close>

text \<open>
  A watcher as its constructor leaves it before the first \<open>get\<close> (no options), and a
  state with such watchers only, no subscriber, and an empty target stack.
\<close>

definition watcher0 :: watcher where
  "watcher0 = \<lparr>vm = 0, deep = False, user = False, lazy = False, sync = False, dirty = False,
     active = True, deps = [], newDeps = [], depIds = {}, newDepIds = {}, wvalue = Undefined\<rparr>"

definition state0 :: state where
  "state0 = \<lparr>subs = (\<lambda>d. []), watchers = (\<lambda>w. watcher0),
     vms = (\<lambda>c. \<lparr>vm_watchers = [], isBeingDestroyed = False\<rparr>),
     target = None, targetStack = [], trace = [], dev = True, async = False\<rparr>"

definition trav0 :: "jsval \<Rightarrow> nat list" where
  "trav0 v = []"

text \<open>\<open>state0\<close> where watcher 1 was made with \<open>user: true\<close>.\<close>

definition stateU :: state where
  "stateU = state0\<lparr>watchers := (\<lambda>w. if w = 1 then watcher0\<lparr>user := True\<rparr> else watcher0)\<rparr>"


definition env0 :: "nat \<Rightarrow> behaviour" where
  "env0 w = \<lparr>getter = Depend 0 (Return (Num 2)), cb = Return Undefined\<rparr>"

text \<open>\<open>state0\<close> where watcher 1 was made with \<open>sync: true\<close>.\<close>

definition stateS :: state where
  "stateS = state0\<lparr>watchers := (\<lambda>w. if w = 1 then watcher0\<lparr>sync := True\<rparr> else watcher0)\<rparr>"

text \<open>
  Watcher 2 and then the sync watcher 1 have subscribed to dep 0. With \<open>envT\<close> every
  getter throws; with \<open>envW\<close> the callback of a watcher tears watcher 2 down.
\<close>

definition stateX :: state where
  "stateX = state0
     \<lparr>subs := (\<lambda>d. if d = 0 then [2, 1] else []),
      watchers := (\<lambda>w. if w = 1 then watcher0\<lparr>sync := True, deps := [0], depIds := {0}\<rparr>
                       else if w = 2 then watcher0\<lparr>deps := [0], depIds := {0}\<rparr>
                       else watcher0)\<rparr>"



text \<open>
  An object literal without properties, a cell holding 1 without getter or setter, and an
  \<open>observe\<close> that finds nothing to observe.
\<close>

definition obj0 :: obj where
  "obj0 = \<lparr>kind = PlainObject, props = (\<lambda>k. None), elems = [], ob = None, isVue = False,
     proto = map Name objectPrototypeKeys\<rparr>"

definition cell0 :: cell where
  "cell0 = \<lparr>c_obj = 0, c_key = Name ''a'', c_val = Num 1, c_getter = None, c_setter = None,
     c_customSetter = False, c_shallow = False, c_childOb = None\<rparr>"

definition obs0 :: observe_fn where
  "obs0 v s = (None, s)"

text \<open>
  A world with one object (address 0) whose properties \<open>a\<close>, \<open>b\<close>, \<open>n\<close> are reactive:
  \<open>a\<close> (dep 8) holds 1 and is watched by watcher 1; \<open>b\<close> (dep 7) was defined over an
  accessor with a getter (reading slot 0, which holds 1) and no setter, with a
  \<open>customSetter\<close>; \<open>n\<close> (dep 9) holds \<open>NaN\<close>.
\<close>

definition world0 :: world where
  "world0 = \<lparr>subs = (\<lambda>d. if d = 8 then [1] else []),
     watchers = (\<lambda>w. if w = 1 then watcher0\<lparr>deps := [8], depIds := {8}\<rparr> else watcher0),
     vms = (\<lambda>c. \<lparr>vm_watchers = [1], isBeingDestroyed = False\<rparr>),
     target = None, targetStack = [], trace = [], dev = True, async = False,
     objs = (\<lambda>a. if a = 0
                  then obj0\<lparr>props := (\<lambda>k. if k = Name ''a'' then Some (Reactive 8)
                                          else if k = Name ''b'' then Some (Reactive 7)
                                          else if k = Name ''n'' then Some (Reactive 9)
                                          else None)\<rparr>
                  else obj0),
     cells = (\<lambda>c. if c = 7 then cell0\<lparr>c_key := Name ''b'', c_getter := Some 0, c_customSetter := True\<rparr>
                   else if c = 9 then cell0\<lparr>c_key := Name ''n'', c_val := NaN\<rparr>
                   else cell0),
     observers = (\<lambda>x. \<lparr>ob_value = 0, vmCount = 0\<rparr>),
     ustore = (\<lambda>g. Num 1),
     dep_uid = 10\<rparr>"

text \<open>
  \<open>world0\<close> with Observers: object 0 is observed (Observer 20, watched by watcher 1),
  object 1 is a plain object without Observer, object 2 is the observed root data of one
  vm (Observer 21, \<open>vmCount = 1\<close>).
\<close>

definition world1 :: world where
  "world1 = world0
     \<lparr>subs := (\<lambda>d. if d = 8 \<or> d = 20 then [1] else []),
      watchers := (\<lambda>w. if w = 1 then watcher0\<lparr>deps := [8, 20], depIds := {8, 20}\<rparr> else watcher0),
      objs := (\<lambda>a. if a = 0 then (objs world0 0)\<lparr>ob := Some 20\<rparr>
                    else if a = 2 then obj0\<lparr>ob := Some 21\<rparr>
                    else obj0),
      observers := (\<lambda>x. if x = 21 then \<lparr>ob_value = 2, vmCount = 1\<rparr>
                         else \<lparr>ob_value = 0, vmCount = 0\<rparr>),
      dep_uid := 22\<rparr>"

section \<open>Proofs\<close>

subsection \<open>What each operation leaves unchanged\<close>

lemma emit_fields [simp]:
  "subs (emit e s) = subs s" "watchers (emit e s) = watchers s" "vms (emit e s) = vms s"
  "target (emit e s) = target s" "targetStack (emit e s) = targetStack s"
  "trace (emit e s) = trace s @ [e]" "dev (emit e s) = dev s" "async (emit e s) = async s"
  by (simp_all add: emit_def)

lemma addSub_fields [simp]:
  "subs (addSub d w s) = (subs s)(d := subs s d @ [w])" "watchers (addSub d w s) = watchers s"
  "vms (addSub d w s) = vms s"
  "target (addSub d w s) = target s" "targetStack (addSub d w s) = targetStack s"
  "trace (addSub d w s) = trace s" "dev (addSub d w s) = dev s" "async (addSub d w s) = async s"
  by (simp_all add: addSub_def)

lemma removeSub_fields [simp]:
  "subs (removeSub d w s) = (subs s)(d := remove1 w (subs s d))" "watchers (removeSub d w s) = watchers s"
  "vms (removeSub d w s) = vms s"
  "target (removeSub d w s) = target s" "targetStack (removeSub d w s) = targetStack s"
  "trace (removeSub d w s) = trace s" "dev (removeSub d w s) = dev s" "async (removeSub d w s) = async s"
  by (simp_all add: removeSub_def remove_arr_def)

lemma pushTarget_fields [simp]:
  "subs (pushTarget t s) = subs s" "watchers (pushTarget t s) = watchers s"
  "vms (pushTarget t s) = vms s"
  "target (pushTarget t s) = t" "targetStack (pushTarget t s) = targetStack s @ [t]"
  "trace (pushTarget t s) = trace s" "dev (pushTarget t s) = dev s" "async (pushTarget t s) = async s"
  by (simp_all add: pushTarget_def)

lemma popTarget_fields [simp]:
  "subs (popTarget s) = subs s" "watchers (popTarget s) = watchers s"
  "vms (popTarget s) = vms s"
  "target (popTarget s) = stackTop (butlast (targetStack s))" "targetStack (popTarget s) = butlast (targetStack s)"
  "trace (popTarget s) = trace s" "dev (popTarget s) = dev s" "async (popTarget s) = async s"
  by (simp_all add: popTarget_def Let_def)

lemma addDep_frame [simp]:
  "vms (addDep w d s) = vms s"
  "target (addDep w d s) = target s" "targetStack (addDep w d s) = targetStack s"
  "trace (addDep w d s) = trace s" "dev (addDep w d s) = dev s" "async (addDep w d s) = async s"
  by (simp_all add: addDep_def Let_def)

lemma depend_frame [simp]:
  "vms (depend d s) = vms s"
  "target (depend d s) = target s" "targetStack (depend d s) = targetStack s"
  "dev (depend d s) = dev s" "async (depend d s) = async s"
  by (simp_all add: depend_def split: option.splits)

lemma fold_removeSub_frame [simp]:
  "watchers (fold (\<lambda>d t. if P d then removeSub d w t else t) ds s) = watchers s"
  "vms (fold (\<lambda>d t. if P d then removeSub d w t else t) ds s) = vms s"
  "target (fold (\<lambda>d t. if P d then removeSub d w t else t) ds s) = target s"
  "targetStack (fold (\<lambda>d t. if P d then removeSub d w t else t) ds s) = targetStack s"
  "trace (fold (\<lambda>d t. if P d then removeSub d w t else t) ds s) = trace s"
  "dev (fold (\<lambda>d t. if P d then removeSub d w t else t) ds s) = dev s"
  "async (fold (\<lambda>d t. if P d then removeSub d w t else t) ds s) = async s"
  by (induction ds arbitrary: s; simp)+

lemma cleanupDeps_frame [simp]:
  "vms (cleanupDeps w s) = vms s"
  "target (cleanupDeps w s) = target s" "targetStack (cleanupDeps w s) = targetStack s"
  "trace (cleanupDeps w s) = trace s" "dev (cleanupDeps w s) = dev s" "async (cleanupDeps w s) = async s"
  by (simp_all add: cleanupDeps_def Let_def)

lemma handleError_fields [simp]:
  "subs (handleError e s) = subs s" "watchers (handleError e s) = watchers s" "vms (handleError e s) = vms s"
  "target (handleError e s) = target s" "targetStack (handleError e s) = targetStack s"
  "trace (handleError e s) = trace s @ [EvHandleError e]" "dev (handleError e s) = dev s" "async (handleError e s) = async s"
  by (simp_all add: handleError_def)

lemma fold_depend_frame [simp]:
  "vms (fold depend ds s) = vms s"
  "target (fold depend ds s) = target s" "targetStack (fold depend ds s) = targetStack s"
  "dev (fold depend ds s) = dev s" "async (fold depend ds s) = async s"
  by (induction ds arbitrary: s; simp)+

lemma traverse_frame [simp]:
  "vms (traverse trav v s) = vms s"
  "target (traverse trav v s) = target s" "targetStack (traverse trav v s) = targetStack s"
  "dev (traverse trav v s) = dev s" "async (traverse trav v s) = async s"
  by (simp_all add: traverse_def)

lemma fold_removeSub_all_frame [simp]:
  "watchers (fold (\<lambda>d t. removeSub d w t) ds s) = watchers s"
  "vms (fold (\<lambda>d t. removeSub d w t) ds s) = vms s"
  "target (fold (\<lambda>d t. removeSub d w t) ds s) = target s"
  "targetStack (fold (\<lambda>d t. removeSub d w t) ds s) = targetStack s"
  "trace (fold (\<lambda>d t. removeSub d w t) ds s) = trace s"
  "dev (fold (\<lambda>d t. removeSub d w t) ds s) = dev s"
  "async (fold (\<lambda>d t. removeSub d w t) ds s) = async s"
  by (induction ds arbitrary: s; simp)+

lemma teardown_frame [simp]:
  "target (teardown w s) = target s" "targetStack (teardown w s) = targetStack s"
  "trace (teardown w s) = trace s" "dev (teardown w s) = dev s" "async (teardown w s) = async s"
  by (simp_all add: teardown_def Let_def)

lemma get_with_stack:
  assumes "targetStack (snd (gt (pushTarget (Some w) s))) = targetStack s @ [Some w]"
  shows "targetStack (snd (get_with trav gt w s)) = targetStack s"
    and "target (snd (get_with trav gt w s)) = stackTop (targetStack s)"
  using assms
  by (auto simp: get_with_def Let_def split: prod.splits sum.splits)

lemma exec_targetStack [simp]: "targetStack (snd (exec g trav s)) = targetStack s"
proof (induction g arbitrary: s)
  case (Eval w g k)
  have "targetStack (snd (get_with trav (exec g trav) w s)) = targetStack s"
    by (rule get_with_stack) (simp add: Eval.IH)
  then show ?case
    by (auto simp: Eval.IH split: prod.splits sum.splits)
qed simp_all

lemma get_targetStack [simp]: "targetStack (snd (get trav w g s)) = targetStack s"
  unfolding get_def by (rule get_with_stack) simp

lemma get_target [simp]: "target (snd (get trav w g s)) = stackTop (targetStack s)"
  unfolding get_def by (rule get_with_stack) simp

lemma exec_target: "stack_ok s \<Longrightarrow> target (snd (exec g trav s)) = target s"
proof (induction g arbitrary: s)
  case (Depend d k)
  then show ?case by (simp add: stack_ok_def)
next
  case (Eval w g k)
  obtain r s' where g: "get trav w g s = (r, s')" by (cases "get trav w g s")
  have "targetStack s' = targetStack s" "target s' = stackTop (targetStack s)"
    using get_targetStack[of trav w g s] get_target[of trav w g s] g by simp_all
  then have ok: "stack_ok s'" "target s' = target s"
    using Eval.prems by (simp_all add: stack_ok_def)
  show ?case
    using g ok Eval.IH(2)[OF ok(1)] by (cases r) (simp_all add: get_def[symmetric])
next
  case (Teardown w k)
  then show ?case by (simp add: stack_ok_def)
qed simp_all

subsection \<open>The invariant is kept\<close>

lemma tracking_inv_cong:
  "subs t = subs s \<Longrightarrow> watchers t = watchers s \<Longrightarrow> tracking_inv t = tracking_inv s"
  by (simp add: tracking_inv_def wf_watcher_def)

lemma addDep_inv: "tracking_inv s \<Longrightarrow> tracking_inv (addDep w d s)"
  unfolding tracking_inv_def wf_watcher_def addDep_def Let_def
  by (auto simp: addSub_def)

lemma depend_inv: "tracking_inv s \<Longrightarrow> tracking_inv (depend d s)"
  by (auto simp: depend_def split: option.splits
      intro!: addDep_inv simp: tracking_inv_cong[of "emit e s" s for e])

lemma fold_depend_inv: "tracking_inv s \<Longrightarrow> tracking_inv (fold depend ds s)"
  by (induction ds arbitrary: s) (simp_all add: depend_inv)

lemma unsub_step:
  "fold (\<lambda>d t. if P d then removeSub d w t else t) (a # ds) s =
   fold (\<lambda>d t. if P d then removeSub d w t else t) ds (if P a then removeSub a w s else s)"
  by simp

lemma unsub_other:
  "w' \<noteq> w \<Longrightarrow>
   (w' \<in> set (subs (fold (\<lambda>d t. if P d then removeSub d w t else t) ds s) d')) =
   (w' \<in> set (subs s d'))"
proof (induction ds arbitrary: s)
  case (Cons a ds)
  have "(w' \<in> set (subs (if P a then removeSub a w s else s) d')) = (w' \<in> set (subs s d'))"
    using Cons.prems by simp
  then show ?case
    unfolding unsub_step using Cons.IH[OF Cons.prems] by simp
qed simp

lemma unsub_distinct:
  "distinct (subs s d') \<Longrightarrow>
   distinct (subs (fold (\<lambda>d t. if P d then removeSub d w t else t) ds s) d')"
proof (induction ds arbitrary: s)
  case (Cons a ds)
  have "distinct (subs (if P a then removeSub a w s else s) d')"
    using Cons.prems by auto
  then show ?case
    unfolding unsub_step by (rule Cons.IH)
qed simp

lemma unsub_self:
  "distinct (subs s d') \<Longrightarrow>
   (w \<in> set (subs (fold (\<lambda>d t. if P d then removeSub d w t else t) ds s) d')) =
   (w \<in> set (subs s d') \<and> \<not> (d' \<in> set ds \<and> P d'))"
proof (induction ds arbitrary: s)
  case (Cons a ds)
  let ?s1 = "if P a then removeSub a w s else s"
  have d: "distinct (subs ?s1 d')"
    using Cons.prems by auto
  have m: "(w \<in> set (subs ?s1 d')) = (w \<in> set (subs s d') \<and> \<not> (a = d' \<and> P a))"
    using Cons.prems by auto
  show ?case
    unfolding unsub_step Cons.IH[OF d] m by auto
qed simp

lemma unsub_subset:
  "set (subs (fold (\<lambda>d t. if P d then removeSub d w t else t) ds s) d') \<subseteq> set (subs s d')"
proof (induction ds arbitrary: s)
  case (Cons a ds)
  have "set (subs (if P a then removeSub a w s else s) d') \<subseteq> set (subs s d')"
    using set_remove1_subset[of w "subs s a"] by auto
  with Cons[of "if P a then removeSub a w s else s"] show ?case
    unfolding unsub_step by blast
qed simp

lemma cleanupDeps_inv: "tracking_inv s \<Longrightarrow> tracking_inv (cleanupDeps w s)"
  unfolding tracking_inv_def wf_watcher_def cleanupDeps_def Let_def
  by (auto simp: unsub_distinct unsub_self unsub_other)

lemma unsub_all_other:
  "w' \<noteq> w \<Longrightarrow>
   (w' \<in> set (subs (fold (\<lambda>d. removeSub d w) ds s) d')) = (w' \<in> set (subs s d'))"
  using unsub_other[where P = "\<lambda>d. True"] by simp

lemma unsub_all_distinct:
  "distinct (subs s d') \<Longrightarrow> distinct (subs (fold (\<lambda>d. removeSub d w) ds s) d')"
  using unsub_distinct[where P = "\<lambda>d. True"] by simp


lemma unsub_all_subset:
  "set (subs (fold (\<lambda>d. removeSub d w) ds s) d') \<subseteq> set (subs s d')"
  using unsub_subset[where P = "\<lambda>d. True"] by simp

lemma shrink_inv:
  assumes "tracking_inv s"
    and "\<And>d. distinct (subs s' d)"
    and "\<And>d. set (subs s' d) \<subseteq> set (subs s d)"
    and "\<And>w. deps (watchers s' w) = deps (watchers s w)"
    and "\<And>w. newDeps (watchers s' w) = newDeps (watchers s w)"
    and "\<And>w. depIds (watchers s' w) = depIds (watchers s w)"
    and "\<And>w. newDepIds (watchers s' w) = newDepIds (watchers s w)"
  shows "tracking_inv s'"
  using assms unfolding tracking_inv_def wf_watcher_def by (simp add: subset_iff)

lemma teardown_watchers:
  "watchers (teardown w s) = (if active (watchers s w)
      then (watchers s)(w := (watchers s w)\<lparr>active := False\<rparr>) else watchers s)"
  by (simp add: teardown_def Let_def)

lemma fold_removeSub_subs_cong:
  "subs t = subs s \<Longrightarrow>
   subs (fold (\<lambda>d. removeSub d w) ds t) = subs (fold (\<lambda>d. removeSub d w) ds s)"
proof (induction ds arbitrary: s t)
  case (Cons a ds)
  show ?case
    using Cons.prems by (simp add: Cons.IH[of "removeSub a w t" "removeSub a w s"])
qed simp

lemma teardown_subs:
  "subs (teardown w s) = (if active (watchers s w)
      then subs (fold (\<lambda>d. removeSub d w) (rev (deps (watchers s w))) s) else subs s)"
proof -
  let ?c = "vms s (vm (watchers s w))"
  let ?t = "s\<lparr>vms := (vms s)(vm (watchers s w) := ?c\<lparr>vm_watchers := remove_arr (vm_watchers ?c) w\<rparr>)\<rparr>"
  have "subs (fold (\<lambda>d. removeSub d w) ds ?t) = subs (fold (\<lambda>d. removeSub d w) ds s)" for ds
    by (rule fold_removeSub_subs_cong) simp
  then show ?thesis
    by (simp add: teardown_def Let_def)
qed

lemma teardown_inv: "tracking_inv s \<Longrightarrow> tracking_inv (teardown w s)"
proof (rule shrink_inv)
  assume i: "tracking_inv s"
  show "\<And>d. distinct (subs (teardown w s) d)"
    using i by (simp add: teardown_subs unsub_all_distinct tracking_inv_def)
  show "\<And>d. set (subs (teardown w s) d) \<subseteq> set (subs s d)"
    by (simp add: teardown_subs unsub_all_subset)
qed (simp_all add: teardown_watchers)

lemma tracking_inv_simps [simp]:
  "tracking_inv (emit e s) = tracking_inv s"
  "tracking_inv (handleError x s) = tracking_inv s"
  "tracking_inv (pushTarget tg s) = tracking_inv s"
  "tracking_inv (popTarget s) = tracking_inv s"
  by (simp_all add: tracking_inv_def wf_watcher_def)

lemma traverse_inv: "tracking_inv s \<Longrightarrow> tracking_inv (traverse trav v s)"
  by (simp add: traverse_def fold_depend_inv)

lemma get_with_inv:
  assumes "tracking_inv s" and "\<And>t. tracking_inv t \<Longrightarrow> tracking_inv (snd (gt t))"
  shows "tracking_inv (snd (get_with trav gt w s))"
proof -
  obtain r s2 where g: "gt (pushTarget (Some w) s) = (r, s2)"
    by (cases "gt (pushTarget (Some w) s)")
  have i2: "tracking_inv s2"
    using assms(2)[of "pushTarget (Some w) s"] assms(1) g by simp
  show ?thesis
    using i2 g
    by (cases r) (simp_all add: get_with_def Let_def cleanupDeps_inv traverse_inv)
qed

lemma exec_inv: "tracking_inv s \<Longrightarrow> tracking_inv (snd (exec g trav s))"
proof (induction g arbitrary: s)
  case (Eval w g k)
  have "tracking_inv (snd (get_with trav (exec g trav) w s))"
    using Eval.prems Eval.IH(1) by (rule get_with_inv)
  then show ?case
    using Eval.IH(2) by (auto split: prod.splits sum.splits)
qed (simp_all add: depend_inv teardown_inv)

lemma get_inv: "tracking_inv s \<Longrightarrow> tracking_inv (snd (get trav w g s))"
  unfolding get_def by (rule get_with_inv) (simp_all add: exec_inv)

lemma run_inactive: "\<not> active (watchers s w) \<Longrightarrow> run env trav w s = (None, s)"
  by (simp add: run_def)

lemma run_throw:
  "active (watchers s w) \<Longrightarrow> get trav w (getter (env w)) s = (Inl e, s1) \<Longrightarrow>
   run env trav w s = (Some e, s1)"
  by (simp add: run_def)

lemma run_return:
  assumes "active (watchers s w)"
    and "get trav w (getter (env w)) s = (Inr v, s1)"
    and "exec (cb (env w)) trav
          (emit (EvCallback w v (wvalue (watchers s1 w)))
            (s1\<lparr>watchers := (watchers s1)(w := (watchers s1 w)\<lparr>wvalue := v\<rparr>)\<rparr>)) = (rc, s4)"
  shows "run env trav w s =
     (if \<not> strict_eq v (wvalue (watchers s1 w)) \<or> isObject v \<or> deep (watchers s1 w) then
        (case rc of
           Inl e \<Rightarrow> if user (watchers s1 w) then (None, handleError e s4) else (Some e, s4)
         | Inr y \<Rightarrow> (None, s4))
      else (None, s1))"
  using assms by (cases rc) (simp_all add: run_def Let_def)





subsection \<open>A watcher is untouched by the evaluation of another\<close>

lemma map_filter_append: "List.map_filter f (xs @ ys) = List.map_filter f xs @ List.map_filter f ys"
  by (simp add: List.map_filter_def)

lemma depend_trace:
  "trace (depend d s) = trace s @ (case target s of Some w \<Rightarrow> [EvDepend w d] | None \<Rightarrow> [])"
  by (simp add: depend_def split: option.splits)

lemma fold_depend_trace:
  "trace (fold depend ds s) = trace s @ (case target s of Some w \<Rightarrow> map (EvDepend w) ds | None \<Rightarrow> [])"
  by (induction ds arbitrary: s) (auto simp: depend_trace split: option.splits)

lemma untouched_refl [simp]: "untouched w s s"
  by (simp add: untouched_def)

lemma untouched_trans: "untouched w s s1 \<Longrightarrow> untouched w s1 s2 \<Longrightarrow> untouched w s s2"
  by (simp add: untouched_def)

lemma untouched_simple [simp]:
  "untouched w s (pushTarget tg s)" "untouched w s (popTarget s)"
  "untouched w s (handleError x s)"
  by (simp_all add: untouched_def depends_of_def map_filter_append)

lemma addDep_other:
  "w' \<noteq> w \<Longrightarrow> watchers (addDep w' d s) w = watchers s w"
  "w' \<noteq> w \<Longrightarrow> (w \<in> set (subs (addDep w' d s) d')) = (w \<in> set (subs s d'))"
  by (simp_all add: addDep_def Let_def)

lemma depend_untouched: "target s \<noteq> Some w \<Longrightarrow> untouched w s (depend d s)"
  by (cases "target s")
     (simp_all add: untouched_def depend_def addDep_other depends_of_def map_filter_append)

lemma fold_depend_untouched: "target s \<noteq> Some w \<Longrightarrow> untouched w s (fold depend ds s)"
proof (induction ds arbitrary: s)
  case (Cons d ds)
  have "untouched w s (depend d s)" using Cons.prems by (rule depend_untouched)
  moreover have "untouched w (depend d s) (fold depend ds (depend d s))"
    using Cons.prems by (intro Cons.IH) simp
  ultimately show ?case by (simp add: untouched_trans[of w s "depend d s"])
qed simp

lemma cleanupDeps_untouched: "w' \<noteq> w \<Longrightarrow> untouched w s (cleanupDeps w' s)"
  by (simp add: untouched_def cleanupDeps_def Let_def unsub_other)

lemma teardown_untouched: "w' \<noteq> w \<Longrightarrow> untouched w s (teardown w' s)"
  by (simp add: untouched_def teardown_watchers teardown_subs unsub_all_other)

lemma get_with_untouched:
  assumes "w2 \<noteq> w"
    and "untouched w (pushTarget (Some w2) s) (snd (gt (pushTarget (Some w2) s)))"
    and "target (snd (gt (pushTarget (Some w2) s))) = Some w2"
  shows "untouched w s (snd (get_with trav gt w2 s))"
proof -
  obtain r s2 where g: "gt (pushTarget (Some w2) s) = (r, s2)"
    by (cases "gt (pushTarget (Some w2) s)")
  have u2: "untouched w s s2"
    using assms(2) g untouched_trans[of w s "pushTarget (Some w2) s" s2] by simp
  have t2: "target s2 \<noteq> Some w" using assms(1,3) g by simp
  define s3 where "s3 = (case r of Inr x \<Rightarrow> s2 | Inl e \<Rightarrow> if user (watchers s2 w2) then handleError e s2 else s2)"
  have u3: "untouched w s s3" and t3: "target s3 \<noteq> Some w"
    using u2 t2 untouched_trans[OF u2, of "handleError e s2" for e]
    by (auto simp: s3_def split: sum.splits)
  define s4 where "s4 = (if deep (watchers s3 w2) then traverse trav (case r of Inr x \<Rightarrow> x | Inl e \<Rightarrow> Undefined) s3 else s3)"
  have u4: "untouched w s s4"
    using u3 untouched_trans[OF u3 fold_depend_untouched[OF t3]]
    by (simp add: s4_def traverse_def)
  have u5: "untouched w s (cleanupDeps w2 (popTarget s4))"
    using untouched_trans[OF untouched_trans[OF u4 untouched_simple(2)] cleanupDeps_untouched[OF assms(1)]] .
  have "snd (get_with trav gt w2 s) = cleanupDeps w2 (popTarget s4)"
    using g by (cases r) (simp_all add: get_with_def Let_def s4_def s3_def)
  then show ?thesis using u5 by simp
qed

lemma stack_ok_push [simp]: "stack_ok (pushTarget tg s)"
  by (simp add: stack_ok_def stackTop_def)

lemma exec_stack_ok: "stack_ok s \<Longrightarrow> stack_ok (snd (exec g trav s))"
  by (simp add: stack_ok_def exec_target[unfolded stack_ok_def])

lemma get_with_exec_target:
  "stack_ok s \<Longrightarrow> target (snd (get_with trav (exec g trav) w s)) = target s"
  using get_target[of trav w g s] by (simp add: get_def stack_ok_def)

lemma exec_untouched:
  "\<not> mentions w g \<Longrightarrow> target s \<noteq> Some w \<Longrightarrow> stack_ok s \<Longrightarrow> untouched w s (snd (exec g trav s))"
proof (induction g arbitrary: s)
  case (Depend d k)
  have "untouched w (depend d s) (snd (exec k trav (depend d s)))"
    using Depend.prems by (intro Depend.IH) (simp_all add: stack_ok_def)
  then show ?case
    using untouched_trans[OF depend_untouched[OF Depend.prems(2)]] by simp
next
  case (Eval w2 g k)
  let ?s1 = "pushTarget (Some w2) s"
  have ne: "w2 \<noteq> w" using Eval.prems(1) by simp
  have u1: "untouched w ?s1 (snd (exec g trav ?s1))"
    using Eval.prems ne by (intro Eval.IH(1)) simp_all
  have t1: "target (snd (exec g trav ?s1)) = Some w2"
    using exec_target[of ?s1 g trav] by simp
  obtain r sg where g: "get_with trav (exec g trav) w2 s = (r, sg)"
    by (cases "get_with trav (exec g trav) w2 s")
  have ug: "untouched w s sg"
    using get_with_untouched[where gt = "exec g trav" and trav = trav, OF ne u1 t1] g by simp
  have tg: "target sg = target s" "targetStack sg = targetStack s"
    using get_with_exec_target[OF Eval.prems(3), of trav g w2] g
      get_targetStack[of trav w2 g s] by (simp_all add: get_def)
  have okg: "stack_ok sg" using tg Eval.prems(3) by (simp add: stack_ok_def)
  show ?case
  proof (cases r)
    case (Inl e)
    then show ?thesis using g ug by simp
  next
    case (Inr v)
    have "untouched w sg (snd (exec k trav sg))"
      using Eval.prems tg okg by (intro Eval.IH(2)) simp_all
    then show ?thesis using g Inr untouched_trans[OF ug] by simp
  qed
next
  case (Teardown w2 k)
  have ne: "w2 \<noteq> w" using Teardown.prems(1) by simp
  have "untouched w (teardown w2 s) (snd (exec k trav (teardown w2 s)))"
    using Teardown.prems by (intro Teardown.IH) (simp_all add: stack_ok_def)
  then show ?case
    using untouched_trans[OF teardown_untouched[OF ne]] by simp
qed simp_all

subsection \<open>What an evaluation collects\<close>

lemma collects_trans: "collects w fs s s1 \<Longrightarrow> collects w fs' s1 s2 \<Longrightarrow> collects w (fs @ fs') s s2"
  by (auto simp: collects_def)

lemma collects_subscribed: "collects w fs s s' \<Longrightarrow> subscribed w s \<Longrightarrow> subscribed w s'"
  by (auto simp: collects_def subscribed_def)

lemma untouched_collects: "untouched w s s' \<Longrightarrow> collects w [] s s'"
  by (simp add: untouched_def collects_def)

lemma depend_collects:
  assumes "target s = Some w" and "subscribed w s"
  shows "collects w [d] s (depend d s)"
proof (cases "d \<in> newDepIds (watchers s w)")
  case True
  then have "depend d s = emit (EvDepend w d) s"
    using assms(1) by (simp add: depend_def addDep_def)
  moreover have "w \<in> set (subs s d)" using True assms(2) by (simp add: subscribed_def)
  ultimately show ?thesis
    using True by (auto simp: collects_def depends_of_def map_filter_append)
next
  case False
  show ?thesis
  proof (cases "d \<in> depIds (watchers s w)")
    case True
    then have "w \<in> set (subs s d)" using assms(2) by (simp add: subscribed_def)
    then show ?thesis
      using True False assms(1)
      by (auto simp: collects_def depends_of_def map_filter_append depend_def addDep_def Let_def)
  next
    case nd: False
    show ?thesis
      using nd False assms(1)
      by (auto simp: collects_def depends_of_def map_filter_append depend_def addDep_def Let_def)
  qed
qed

lemma fold_depend_collects:
  "target s = Some w \<Longrightarrow> subscribed w s \<Longrightarrow> collects w ds s (fold depend ds s)"
proof (induction ds arbitrary: s)
  case Nil
  show ?case by (simp add: untouched_collects)
next
  case (Cons d ds)
  have c1: "collects w [d] s (depend d s)" using Cons.prems by (rule depend_collects)
  have "collects w ds (depend d s) (fold depend ds (depend d s))"
    using Cons.prems collects_subscribed[OF c1] by (intro Cons.IH) simp_all
  then show ?case using collects_trans[OF c1] by simp
qed

lemma exec_collects:
  "\<not> mentions w g \<Longrightarrow> target s = Some w \<Longrightarrow> stack_ok s \<Longrightarrow> subscribed w s \<Longrightarrow>
   \<exists>fs. collects w fs s (snd (exec g trav s))"
proof (induction g arbitrary: s)
  case (Return v)
  show ?case using untouched_collects[of w s s] by auto
next
  case (Throw e)
  show ?case using untouched_collects[of w s s] by auto
next
  case (Depend d k)
  have c1: "collects w [d] s (depend d s)" using Depend.prems(2,4) by (rule depend_collects)
  have "\<exists>fs. collects w fs (depend d s) (snd (exec k trav (depend d s)))"
    using Depend.prems collects_subscribed[OF c1] by (intro Depend.IH) (simp_all add: stack_ok_def)
  then show ?case using collects_trans[OF c1] by auto
next
  case (Eval w2 g k)
  let ?s1 = "pushTarget (Some w2) s"
  have ne: "w2 \<noteq> w" using Eval.prems(1) by simp
  have u1: "untouched w ?s1 (snd (exec g trav ?s1))"
    using Eval.prems ne by (intro exec_untouched) simp_all
  have t1: "target (snd (exec g trav ?s1)) = Some w2"
    using exec_target[of ?s1 g trav] by simp
  obtain r sg where g: "get_with trav (exec g trav) w2 s = (r, sg)"
    by (cases "get_with trav (exec g trav) w2 s")
  have ug: "untouched w s sg"
    using get_with_untouched[where gt = "exec g trav" and trav = trav, OF ne u1 t1] g by simp
  have cg: "collects w [] s sg" using ug by (rule untouched_collects)
  have tg: "target sg = target s" "targetStack sg = targetStack s"
    using get_with_exec_target[OF Eval.prems(3), of trav g w2] g
      get_targetStack[of trav w2 g s] by (simp_all add: get_def)
  have okg: "stack_ok sg" using tg Eval.prems(3) by (simp add: stack_ok_def)
  show ?case
  proof (cases r)
    case (Inl e)
    then show ?thesis using g cg by auto
  next
    case (Inr v)
    have "\<exists>fs. collects w fs sg (snd (exec k trav sg))"
      using Eval.prems tg okg collects_subscribed[OF cg] by (intro Eval.IH(2)) simp_all
    then show ?thesis using g Inr collects_trans[OF cg] by auto
  qed
next
  case (Teardown w2 k)
  have ne: "w2 \<noteq> w" using Teardown.prems(1) by simp
  have c1: "collects w [] s (teardown w2 s)"
    using teardown_untouched[OF ne] by (rule untouched_collects)
  have "\<exists>fs. collects w fs (teardown w2 s) (snd (exec k trav (teardown w2 s)))"
    using Teardown.prems collects_subscribed[OF c1] by (intro Teardown.IH) (simp_all add: stack_ok_def)
  then show ?case using collects_trans[OF c1] by auto
qed

lemma subscribed_push [simp]: "subscribed w (pushTarget tg s) = subscribed w s"
  by (simp add: subscribed_def)

lemma cleanupDeps_self:
  "distinct (subs s d) \<Longrightarrow>
   (w \<in> set (subs (cleanupDeps w s) d)) =
   (w \<in> set (subs s d) \<and> \<not> (d \<in> set (deps (watchers s w)) \<and> d \<notin> newDepIds (watchers s w)))"
  by (simp add: cleanupDeps_def Let_def unsub_self)

lemma cleanupDeps_watcher:
  "watchers (cleanupDeps w s) w =
     (watchers s w)\<lparr>depIds := newDepIds (watchers s w), newDepIds := {},
                    deps := newDeps (watchers s w), newDeps := []\<rparr>"
  by (simp add: cleanupDeps_def Let_def)

lemma get_with_collects:
  assumes q: "newDepIds (watchers s w) = {}"
    and sub: "subscribed w s"
    and inv: "tracking_inv s"
    and gt_inv: "tracking_inv (snd (gt (pushTarget (Some w) s)))"
    and gt_c: "collects w fs (pushTarget (Some w) s) (snd (gt (pushTarget (Some w) s)))"
    and gt_t: "target (snd (gt (pushTarget (Some w) s))) = Some w"
  shows "\<exists>F. depends_of w (trace (snd (get_with trav gt w s))) = depends_of w (trace s) @ F \<and>
             set (deps (watchers (snd (get_with trav gt w s)) w)) = set F \<and>
             depIds (watchers (snd (get_with trav gt w s)) w) = set F \<and>
             newDeps (watchers (snd (get_with trav gt w s)) w) = [] \<and>
             newDepIds (watchers (snd (get_with trav gt w s)) w) = {} \<and>
             active (watchers (snd (get_with trav gt w s)) w) = active (watchers s w) \<and>
             (\<forall>d. (w \<in> set (subs (snd (get_with trav gt w s)) d)) = (d \<in> set F))"
proof -
  let ?s1 = "pushTarget (Some w) s"
  obtain r s2 where g: "gt ?s1 = (r, s2)" by (cases "gt ?s1")
  have c2: "collects w fs s s2"
    using gt_c g collects_trans[OF untouched_collects[OF untouched_simple(1)[of w s "Some w"]], of fs s2]
    by simp
  have i2: "tracking_inv s2" and t2: "target s2 = Some w" using gt_inv gt_t g by simp_all
  define s3 where "s3 = (case r of Inr x \<Rightarrow> s2 | Inl e \<Rightarrow> if user (watchers s2 w) then handleError e s2 else s2)"
  have u23: "untouched w s2 s3" by (simp add: s3_def split: sum.splits)
  have c3: "collects w fs s s3"
    using collects_trans[OF c2 untouched_collects[OF u23]] by simp
  have i3: "tracking_inv s3" and t3: "target s3 = Some w"
    using i2 t2 by (simp_all add: s3_def split: sum.splits)
  define v where "v = (case r of Inr x \<Rightarrow> x | Inl e \<Rightarrow> Undefined)"
  define s4 where "s4 = (if deep (watchers s3 w) then traverse trav v s3 else s3)"
  define F where "F = fs @ (if deep (watchers s3 w) then trav v else [])"
  have c34: "collects w (if deep (watchers s3 w) then trav v else []) s3 s4"
    using fold_depend_collects[OF t3 collects_subscribed[OF c3 sub], of "trav v"]
    by (simp add: s4_def traverse_def untouched_collects)
  have c4: "collects w F s s4"
    unfolding F_def using c3 c34 by (rule collects_trans)
  have i4: "tracking_inv s4"
    using i3 by (simp add: s4_def traverse_inv)
  have e: "snd (get_with trav gt w s) = cleanupDeps w (popTarget s4)"
    using g by (cases r) (simp_all add: get_with_def Let_def s4_def s3_def v_def)
  have wf4: "set (newDeps (watchers s4 w)) = newDepIds (watchers s4 w)"
    and d4: "\<And>d. distinct (subs s4 d)"
    using i4 by (simp_all add: tracking_inv_def wf_watcher_def)
  have wf0: "set (deps (watchers s w)) = depIds (watchers s w)"
    and m0: "\<And>d. w \<in> set (subs s d) \<Longrightarrow> d \<in> depIds (watchers s w)"
    using inv q by (auto simp: tracking_inv_def wf_watcher_def)
  have n4: "newDepIds (watchers s4 w) = set F" using c4 q by (simp add: collects_def)
  have "depends_of w (trace (cleanupDeps w (popTarget s4))) = depends_of w (trace s) @ F"
    using c4 by (simp add: collects_def)
  moreover have "set (deps (watchers (cleanupDeps w (popTarget s4)) w)) = set F"
    using wf4 n4 by (simp add: cleanupDeps_watcher)
  moreover have "depIds (watchers (cleanupDeps w (popTarget s4)) w) = set F"
    using n4 by (simp add: cleanupDeps_watcher)
  moreover have "newDeps (watchers (cleanupDeps w (popTarget s4)) w) = []"
    "newDepIds (watchers (cleanupDeps w (popTarget s4)) w) = {}"
    by (simp_all add: cleanupDeps_watcher)
  moreover have "active (watchers (cleanupDeps w (popTarget s4)) w) = active (watchers s w)"
    using c4 by (simp add: cleanupDeps_watcher collects_def)
  moreover have "(w \<in> set (subs (cleanupDeps w (popTarget s4)) d)) = (d \<in> set F)" for d
  proof -
    have "(w \<in> set (subs (cleanupDeps w (popTarget s4)) d)) =
          (w \<in> set (subs s4 d) \<and> \<not> (d \<in> set (deps (watchers s4 w)) \<and> d \<notin> newDepIds (watchers s4 w)))"
      using cleanupDeps_self[of "popTarget s4" d w] d4[of d] by simp
    also have "\<dots> = ((w \<in> set (subs s d) \<or> d \<in> set F) \<and> \<not> (d \<in> depIds (watchers s w) \<and> d \<notin> set F))"
      using c4 n4 wf0 by (simp add: collects_def)
    also have "\<dots> = (d \<in> set F)"
      using m0[of d] by auto
    finally show ?thesis .
  qed
  ultimately show ?thesis unfolding e by blast
qed

subsection \<open>What the operations add to the trace\<close>

lemma map_filter_depends [simp]:
  "(\<And>a b. f (EvDepend a b) = None) \<Longrightarrow> List.map_filter f (map (EvDepend w) ds) = []"
  by (induction ds) simp_all

lemma fold_depend_quiet:
  assumes "\<And>a b. f (EvDepend a b) = None"
  shows "List.map_filter f (trace (fold depend ds s)) = List.map_filter f (trace s)"
  using assms by (simp add: fold_depend_trace map_filter_append split: option.splits)

lemma get_with_quiet:
  assumes q1: "\<And>a b. f (EvDepend a b) = None" and q2: "\<And>x. f (EvHandleError x) = None"
    and gt: "List.map_filter f (trace (snd (gt (pushTarget (Some w) s)))) = List.map_filter f (trace s)"
  shows "List.map_filter f (trace (snd (get_with trav gt w s))) = List.map_filter f (trace s)"
proof -
  obtain r s2 where g: "gt (pushTarget (Some w) s) = (r, s2)" by (cases "gt (pushTarget (Some w) s)")
  have t2: "List.map_filter f (trace s2) = List.map_filter f (trace s)" using gt g by simp
  show ?thesis
    using g t2 q2
    by (cases r)
       (simp_all add: get_with_def Let_def traverse_def fold_depend_quiet[of f, OF q1] map_filter_append)
qed

lemma exec_quiet:
  assumes q1: "\<And>a b. f (EvDepend a b) = None" and q2: "\<And>x. f (EvHandleError x) = None"
  shows "List.map_filter f (trace (snd (exec g trav s))) = List.map_filter f (trace s)"
proof (induction g arbitrary: s)
  case (Depend d k)
  show ?case
    using fold_depend_quiet[of f "[d]" s, OF q1] by (simp add: Depend.IH)
next
  case (Eval w g k)
  have "List.map_filter f (trace (snd (get_with trav (exec g trav) w s))) = List.map_filter f (trace s)"
    using q1 q2 by (rule get_with_quiet) (simp add: Eval.IH(1))
  then show ?case
    by (auto simp: Eval.IH(2) split: prod.splits sum.splits)
qed simp_all

lemma get_quiet:
  assumes q1: "\<And>a b. f (EvDepend a b) = None" and q2: "\<And>x. f (EvHandleError x) = None"
  shows "List.map_filter f (trace (snd (get trav w g s))) = List.map_filter f (trace s)"
  unfolding get_def using q1 q2 by (rule get_with_quiet) (simp add: exec_quiet[of f, OF q1 q2])

lemma run_quiet:
  assumes q1: "\<And>a b. f (EvDepend a b) = None" and q2: "\<And>x. f (EvHandleError x) = None"
    and q3: "\<And>v old. f (EvCallback w v old) = None"
  shows "List.map_filter f (trace (snd (run env trav w s))) = List.map_filter f (trace s)"
proof (cases "active (watchers s w)")
  case False
  then show ?thesis by (simp add: run_inactive)
next
  case True
  obtain r s1 where g: "get trav w (getter (env w)) s = (r, s1)"
    by (cases "get trav w (getter (env w)) s")
  have t1: "List.map_filter f (trace s1) = List.map_filter f (trace s)"
    using get_quiet[of f trav w "getter (env w)" s, OF q1 q2] g by simp
  show ?thesis
  proof (cases r)
    case (Inl e)
    then show ?thesis using g t1 run_throw[OF True, of trav env e s1] by simp
  next
    case (Inr v)
    let ?s3 = "emit (EvCallback w v (wvalue (watchers s1 w)))
       (s1\<lparr>watchers := (watchers s1)(w := (watchers s1 w)\<lparr>wvalue := v\<rparr>)\<rparr>)"
    obtain rc s4 where c: "exec (cb (env w)) trav ?s3 = (rc, s4)"
      by (cases "exec (cb (env w)) trav ?s3")
    have t4: "List.map_filter f (trace s4) = List.map_filter f (trace s)"
      using exec_quiet[of f "cb (env w)" trav ?s3, OF q1 q2] c t1 q3
      by (simp add: map_filter_append)
    have "run env trav w s =
     (if \<not> strict_eq v (wvalue (watchers s1 w)) \<or> isObject v \<or> deep (watchers s1 w) then
        (case rc of
           Inl e \<Rightarrow> if user (watchers s1 w) then (None, handleError e s4) else (Some e, s4)
         | Inr y \<Rightarrow> (None, s4))
      else (None, s1))"
      using True g c unfolding Inr by (rule run_return)
    then show ?thesis
      using t1 t4 q2 by (cases rc) (simp_all add: map_filter_append)
  qed
qed

lemma update_quiet:
  assumes q1: "\<And>a b. f (EvDepend a b) = None" and q2: "\<And>x. f (EvHandleError x) = None"
    and q3: "\<And>v old. f (EvCallback w v old) = None"
    and q4: "f (EvQueue w) = None"
  shows "List.map_filter f (trace (snd (update env trav w s))) =
         List.map_filter f (trace s @ [EvUpdate w])"
  using run_quiet[of f w env trav "emit (EvUpdate w) s", OF q1 q2 q3] q4
  by (auto simp: update_def Let_def queueWatcher_def map_filter_append split: option.splits)

lemma callbacks_of_simps [simp]:
  "callbacks_of w [] = []"
  "callbacks_of w (tr @ tr') = callbacks_of w tr @ callbacks_of w tr'"
  "callbacks_of w (EvUpdate a # tr) = callbacks_of w tr"
  "callbacks_of w (EvQueue a # tr) = callbacks_of w tr"
  "callbacks_of w (EvHandleError x # tr) = callbacks_of w tr"
  "callbacks_of w (EvDepend a b # tr) = callbacks_of w tr"
  "callbacks_of w (EvNotify a # tr) = callbacks_of w tr"
  "callbacks_of w (EvCallback a v old # tr) =
     (if a = w then (v, old) # callbacks_of w tr else callbacks_of w tr)"
  by (simp_all add: callbacks_of_def map_filter_append)

lemma updates_of_simps [simp]:
  "updates_of [] = []"
  "updates_of (tr @ tr') = updates_of tr @ updates_of tr'"
  "updates_of (EvUpdate a # tr) = a # updates_of tr"
  "updates_of (EvQueue a # tr) = updates_of tr"
  "updates_of (EvHandleError x # tr) = updates_of tr"
  "updates_of (EvDepend a b # tr) = updates_of tr"
  "updates_of (EvNotify a # tr) = updates_of tr"
  "updates_of (EvCallback a v old # tr) = updates_of tr"
  by (simp_all add: updates_of_def map_filter_append)

lemma update_callbacks_other:
  "w' \<noteq> w \<Longrightarrow> callbacks_of w (trace (snd (update env trav w' s))) = callbacks_of w (trace s)"
  unfolding callbacks_of_def
  by (subst update_quiet) (simp_all add: map_filter_append)

lemma update_callbacks_inactive:
  "\<not> active (watchers s w) \<Longrightarrow>
   callbacks_of w (trace (snd (update env trav w s))) = callbacks_of w (trace s)"
  by (simp add: update_def Let_def run_inactive queueWatcher_def)


subsection \<open>Nothing makes a watcher active again\<close>

lemma addDep_active [simp]: "active (watchers (addDep w' d s) w) = active (watchers s w)"
  by (simp add: addDep_def Let_def)

lemma depend_active [simp]: "active (watchers (depend d s) w) = active (watchers s w)"
  by (simp add: depend_def split: option.splits)

lemma fold_depend_active [simp]: "active (watchers (fold depend ds s) w) = active (watchers s w)"
  by (induction ds arbitrary: s) simp_all

lemma cleanupDeps_active [simp]: "active (watchers (cleanupDeps w' s) w) = active (watchers s w)"
  by (simp add: cleanupDeps_def Let_def)

lemma teardown_active: "active (watchers (teardown w' s) w) \<Longrightarrow> active (watchers s w)"
  by (simp add: teardown_watchers split: if_splits)

lemma get_with_active:
  assumes "active (watchers (snd (get_with trav gt w' s)) w)"
    and "\<And>t. active (watchers (snd (gt t)) w) \<Longrightarrow> active (watchers t w)"
  shows "active (watchers s w)"
proof -
  obtain r s2 where g: "gt (pushTarget (Some w') s) = (r, s2)"
    by (cases "gt (pushTarget (Some w') s)")
  have "active (watchers s2 w)"
    using assms(1) g by (cases r) (simp_all add: get_with_def Let_def traverse_def split: if_splits)
  then show ?thesis using assms(2)[where t = "pushTarget (Some w') s"] g by simp
qed

lemma exec_active: "active (watchers (snd (exec g trav s)) w) \<Longrightarrow> active (watchers s w)"
proof (induction g arbitrary: s)
  case (Eval w' g k)
  obtain r sg where g: "get_with trav (exec g trav) w' s = (r, sg)"
    by (cases "get_with trav (exec g trav) w' s")
  have "active (watchers sg w)"
    using Eval.prems g Eval.IH(2)[where s = sg] by (cases r) simp_all
  then have "active (watchers (snd (get_with trav (exec g trav) w' s)) w)"
    using g by simp
  then show ?case
    by (rule get_with_active[where gt = "exec g trav"]) (rule Eval.IH(1))
next
  case (Teardown w' k)
  then show ?case using teardown_active[where w = w and w' = w' and s = s] by simp
next
  case (Depend d k)
  have "active (watchers (depend d s) w)"
    using Depend.prems Depend.IH[where s = "depend d s"] by simp
  then show ?case by simp
qed simp_all

lemma get_active: "active (watchers (snd (get trav w' g s)) w) \<Longrightarrow> active (watchers s w)"
  unfolding get_def by (rule get_with_active[where gt = "exec g trav"]) (auto dest: exec_active)

lemma run_active: "active (watchers (snd (run env trav w' s)) w) \<Longrightarrow> active (watchers s w)"
proof (cases "active (watchers s w')")
  case False
  assume "active (watchers (snd (run env trav w' s)) w)"
  then show ?thesis using False by (simp add: run_inactive)
next
  case True
  assume a: "active (watchers (snd (run env trav w' s)) w)"
  obtain r s1 where g: "get trav w' (getter (env w')) s = (r, s1)"
    by (cases "get trav w' (getter (env w')) s")
  have m1: "active (watchers s1 w) \<Longrightarrow> active (watchers s w)"
    using get_active[where w = w and trav = trav and w' = w' and g = "getter (env w')" and s = s] g by simp
  show ?thesis
  proof (cases r)
    case (Inl e)
    then show ?thesis using g a m1 run_throw[OF True, of trav env e s1] by simp
  next
    case (Inr v)
    let ?s3 = "emit (EvCallback w' v (wvalue (watchers s1 w')))
       (s1\<lparr>watchers := (watchers s1)(w' := (watchers s1 w')\<lparr>wvalue := v\<rparr>)\<rparr>)"
    obtain rc s4 where c: "exec (cb (env w')) trav ?s3 = (rc, s4)"
      by (cases "exec (cb (env w')) trav ?s3")
    have m4: "active (watchers s4 w) \<Longrightarrow> active (watchers s1 w)"
      using exec_active[where w = w and g = "cb (env w')" and trav = trav and s = ?s3] c
      by (simp split: if_splits)
    have "run env trav w' s =
     (if \<not> strict_eq v (wvalue (watchers s1 w')) \<or> isObject v \<or> deep (watchers s1 w') then
        (case rc of
           Inl e \<Rightarrow> if user (watchers s1 w') then (None, handleError e s4) else (Some e, s4)
         | Inr y \<Rightarrow> (None, s4))
      else (None, s1))"
      using True g c unfolding Inr by (rule run_return)
    then show ?thesis
      using a m1 m4 by (cases rc) (auto split: if_splits)
  qed
qed

lemma update_active: "active (watchers (snd (update env trav w' s)) w) \<Longrightarrow> active (watchers s w)"
  using run_active[where w = w and env = env and trav = trav and w' = w' and s = "emit (EvUpdate w') s"]
  by (simp add: update_def Let_def queueWatcher_def split: if_splits)

lemma notify_loop_callbacks:
  "w \<notin> set ws \<or> \<not> active (watchers s w) \<Longrightarrow>
   callbacks_of w (trace (snd (notify_loop env trav ws s))) = callbacks_of w (trace s)"
proof (induction ws arbitrary: s)
  case (Cons a ws)
  obtain r s1 where u: "update env trav a s = (r, s1)" by (cases "update env trav a s")
  have c1: "callbacks_of w (trace s1) = callbacks_of w (trace s)"
    using Cons.prems u update_callbacks_other[where w' = a and w = w and env = env and trav = trav and s = s]
      update_callbacks_inactive[where w = w and env = env and trav = trav and s = s]
    by (cases "a = w") auto
  have p1: "w \<notin> set ws \<or> \<not> active (watchers s1 w)"
    using Cons.prems u update_active[where w = w and env = env and trav = trav and w' = a and s = s] by auto
  show ?case
    using u c1 Cons.IH[OF p1] by (cases r) simp_all
qed simp

lemma notify_callbacks:
  "w \<notin> set (subs s d) \<or> \<not> active (watchers s w) \<Longrightarrow>
   callbacks_of w (trace (snd (notify env trav d s))) = callbacks_of w (trace s)"
proof -
  assume a: "w \<notin> set (subs s d) \<or> \<not> active (watchers s w)"
  let ?ord = "if dev s \<and> \<not> async s then sort (subs s d) else subs s d"
  have "w \<notin> set ?ord \<or> \<not> active (watchers (emit (EvNotify d) s) w)"
    using a by auto
  from notify_loop_callbacks[OF this, of env trav] show ?thesis
    by (simp add: notify_def Let_def)
qed


subsection \<open>Re-evaluating a getter that reads the same properties\<close>













lemmas eval_defs = get_def get_with_def reads_def depend_def addDep_def addSub_def removeSub_def
  remove_arr_def cleanupDeps_def pushTarget_def popTarget_def emit_def handleError_def
  state0_def watcher0_def trav0_def traverse_def stackTop_def Let_def teardown_def



lemma handled_of_simps [simp]:
  "handled_of [] = []"
  "handled_of (tr @ tr') = handled_of tr @ handled_of tr'"
  "handled_of (EvUpdate a # tr) = handled_of tr"
  "handled_of (EvQueue a # tr) = handled_of tr"
  "handled_of (EvHandleError x # tr) = x # handled_of tr"
  "handled_of (EvDepend a b # tr) = handled_of tr"
  "handled_of (EvNotify a # tr) = handled_of tr"
  "handled_of (EvCallback a v old # tr) = handled_of tr"
  by (simp_all add: handled_of_def map_filter_append)

lemma traverse_handled [simp]: "handled_of (trace (traverse trav v s)) = handled_of (trace s)"
  unfolding handled_of_def traverse_def by (rule fold_depend_quiet) simp

lemma cleanupDeps_quiescent [simp]:
  "newDeps (watchers (cleanupDeps w s) w) = []" "newDepIds (watchers (cleanupDeps w s) w) = {}"
  by (simp_all add: cleanupDeps_watcher)

text \<open>
  C8. Every \<open>get\<close>, whatever its getter does (nested and re-entrant evaluations, a throw),
  leaves the target stack as it found it: the getter ends with the watcher on top of the
  stack it was pushed on, \<open>popTarget\<close> removes it, and \<open>Dep.target\<close> is again the top of the
  stack, which is its value before the call whenever it was the top of the stack then.
\<close>

theorem get_balances_target:
  "targetStack (snd (get trav w g s)) = targetStack s \<and>
   target (snd (get trav w g s)) = stackTop (targetStack s) \<and>
   targetStack (snd (exec g trav (pushTarget (Some w) s))) = targetStack s @ [Some w] \<and>
   target (snd (exec g trav (pushTarget (Some w) s))) = Some w \<and>
   (stack_ok s \<longrightarrow> target (snd (get trav w g s)) = target s)"
  using exec_target[where s = "pushTarget (Some w) s" and g = g and trav = trav, OF stack_ok_push]
  by (simp add: stack_ok_def)

theorem get_balances_target_witness:
  "stack_ok state0 \<and>
   target (snd (get trav0 1
      (Depend 0 (Eval 2 (Depend 1 (Eval 1 (Depend 2 (Return Null)) (Throw (Str ''boom''))))
         (Return (Num 1)))) state0)) = target state0 \<and>
   fst (get trav0 1
      (Depend 0 (Eval 2 (Depend 1 (Eval 1 (Depend 2 (Return Null)) (Throw (Str ''boom''))))
         (Return (Num 1)))) state0) = Inl (Str ''boom'')"
proof -
  have ok: "stack_ok state0" by (simp add: stack_ok_def state0_def stackTop_def)
  have r: "fst (get trav0 1
      (Depend 0 (Eval 2 (Depend 1 (Eval 1 (Depend 2 (Return Null)) (Throw (Str ''boom''))))
         (Return (Num 1)))) state0) = Inl (Str ''boom'')"
    by (simp add: eval_defs)
  show ?thesis
    using get_balances_target[where s = state0 and w = 1 and trav = trav0 and
        g = "Depend 0 (Eval 2 (Depend 1 (Eval 1 (Depend 2 (Return Null)) (Throw (Str ''boom''))))
         (Return (Num 1)))"] ok r
    by simp
qed

text \<open>
  C7. When the getter throws \<open>e\<close>: for a user watcher \<open>e\<close> goes to \<open>handleError\<close> and \<open>get\<close>
  returns \<open>undefined\<close>; for any other watcher \<open>get\<close> rethrows \<open>e\<close> and \<open>handleError\<close> is not
  called. On both paths the \<open>finally\<close> block runs: \<open>traverse\<close> for a deep watcher,
  \<open>popTarget\<close>, \<open>cleanupDeps\<close>; the target stack is as before the call and the watcher
  is no longer collecting.
\<close>

theorem get_getter_throws:
  assumes "exec g trav (pushTarget (Some w) s) = (Inl e, s2)"
  shows "(user (watchers s2 w) \<longrightarrow>
            get trav w g s =
              (Inr Undefined,
               cleanupDeps w (popTarget
                 (if deep (watchers s2 w) then traverse trav Undefined (handleError e s2)
                  else handleError e s2))) \<and>
            handled_of (trace (snd (get trav w g s))) = handled_of (trace s2) @ [e]) \<and>
         (\<not> user (watchers s2 w) \<longrightarrow>
            get trav w g s =
              (Inl e,
               cleanupDeps w (popTarget
                 (if deep (watchers s2 w) then traverse trav Undefined s2 else s2))) \<and>
            handled_of (trace (snd (get trav w g s))) = handled_of (trace s2)) \<and>
         targetStack (snd (get trav w g s)) = targetStack s \<and>
         newDeps (watchers (snd (get trav w g s)) w) = [] \<and>
         newDepIds (watchers (snd (get trav w g s)) w) = {}"
proof -
  have u: "user (watchers s2 w) \<Longrightarrow> get trav w g s =
              (Inr Undefined,
               cleanupDeps w (popTarget
                 (if deep (watchers s2 w) then traverse trav Undefined (handleError e s2)
                  else handleError e s2)))"
    using assms by (simp add: get_def get_with_def Let_def)
  have n: "\<not> user (watchers s2 w) \<Longrightarrow> get trav w g s =
              (Inl e,
               cleanupDeps w (popTarget
                 (if deep (watchers s2 w) then traverse trav Undefined s2 else s2)))"
    using assms by (simp add: get_def get_with_def Let_def)
  have q: "newDeps (watchers (snd (get trav w g s)) w) = []"
    "newDepIds (watchers (snd (get trav w g s)) w) = {}"
    using u n by (cases "user (watchers s2 w)"; simp)+
  have ts: "targetStack (snd (get trav w g s)) = targetStack s" by simp
  have hu: "user (watchers s2 w) \<Longrightarrow>
      handled_of (trace (snd (get trav w g s))) = handled_of (trace s2) @ [e]"
    using u by simp
  have hn: "\<not> user (watchers s2 w) \<Longrightarrow>
      handled_of (trace (snd (get trav w g s))) = handled_of (trace s2)"
    using n by simp
  show ?thesis
    using u n q ts hu hn by blast
qed

theorem get_getter_throws_witness:
  "exec (Depend 0 (Throw (Str ''boom''))) trav0 (pushTarget (Some 1) stateU) =
     (Inl (Str ''boom''), depend 0 (pushTarget (Some 1) stateU)) \<and>
   user (watchers (depend 0 (pushTarget (Some 1) stateU)) 1) \<and>
   fst (get trav0 1 (Depend 0 (Throw (Str ''boom''))) stateU) = Inr Undefined \<and>
   handled_of (trace (snd (get trav0 1 (Depend 0 (Throw (Str ''boom''))) stateU))) = [Str ''boom''] \<and>
   targetStack (snd (get trav0 1 (Depend 0 (Throw (Str ''boom''))) stateU)) = [] \<and>
   deps (watchers (snd (get trav0 1 (Depend 0 (Throw (Str ''boom''))) stateU)) 1) = [0] \<and>
   exec (Depend 0 (Throw (Str ''boom''))) trav0 (pushTarget (Some 2) stateU) =
     (Inl (Str ''boom''), depend 0 (pushTarget (Some 2) stateU)) \<and>
   \<not> user (watchers (depend 0 (pushTarget (Some 2) stateU)) 2) \<and>
   fst (get trav0 2 (Depend 0 (Throw (Str ''boom''))) stateU) = Inl (Str ''boom'') \<and>
   handled_of (trace (snd (get trav0 2 (Depend 0 (Throw (Str ''boom''))) stateU))) = [] \<and>
   targetStack (snd (get trav0 2 (Depend 0 (Throw (Str ''boom''))) stateU)) = [] \<and>
   deps (watchers (snd (get trav0 2 (Depend 0 (Throw (Str ''boom''))) stateU)) 2) = [0]"
proof -
  have p1: "exec (Depend 0 (Throw (Str ''boom''))) trav0 (pushTarget (Some 1) stateU) =
     (Inl (Str ''boom''), depend 0 (pushTarget (Some 1) stateU))" by simp
  have p2: "exec (Depend 0 (Throw (Str ''boom''))) trav0 (pushTarget (Some 2) stateU) =
     (Inl (Str ''boom''), depend 0 (pushTarget (Some 2) stateU))" by simp
  have u1: "user (watchers (depend 0 (pushTarget (Some 1) stateU)) 1)"
    "\<not> user (watchers (depend 0 (pushTarget (Some 2) stateU)) 2)"
    by (simp_all add: eval_defs stateU_def)
  have h: "handled_of (trace (depend 0 (pushTarget (Some 1) stateU))) = []"
    "handled_of (trace (depend 0 (pushTarget (Some 2) stateU))) = []"
    "targetStack stateU = []"
    by (simp_all add: eval_defs stateU_def)
  have d: "deps (watchers (snd (get trav0 1 (Depend 0 (Throw (Str ''boom''))) stateU)) 1) = [0]"
    "deps (watchers (snd (get trav0 2 (Depend 0 (Throw (Str ''boom''))) stateU)) 2) = [0]"
    by (simp_all add: eval_defs stateU_def)
  show ?thesis
    using get_getter_throws[OF p1] get_getter_throws[OF p2] u1 h d p1 p2 by simp
qed

lemma fired_append: "depends_of w (trace s') = depends_of w (trace s) @ F \<Longrightarrow> fired w s s' = F"
  by (simp add: fired_def)

text \<open>
  C1 (amended). For a consistent watcher (active, not collecting, subscribed to the deps
  it holds) and an evaluation that neither re-enters nor tears down this watcher: the
  \<open>depend\<close> calls that reached it are what the trace gained for it; afterwards \<open>deps\<close> holds
  exactly those deps, the watcher is a subscriber of exactly those deps, \<open>notify\<close> on any
  other dep never calls its callback, and the watcher is consistent again.
\<close>

theorem get_subscribes_exactly_the_deps_read:
  assumes "consistent w s" and "\<not> mentions w g"
  shows "depends_of w (trace (snd (get trav w g s))) =
           depends_of w (trace s) @ fired w s (snd (get trav w g s)) \<and>
         set (deps (watchers (snd (get trav w g s)) w)) = set (fired w s (snd (get trav w g s))) \<and>
         (\<forall>d. (w \<in> set (subs (snd (get trav w g s)) d)) = (d \<in> set (fired w s (snd (get trav w g s))))) \<and>
         (\<forall>d env. d \<notin> set (fired w s (snd (get trav w g s))) \<longrightarrow>
            callbacks_of w (trace (snd (notify env trav d (snd (get trav w g s))))) =
            callbacks_of w (trace (snd (get trav w g s)))) \<and>
         consistent w (snd (get trav w g s))"
proof -
  let ?s1 = "pushTarget (Some w) s"
  let ?s' = "snd (get trav w g s)"
  have q: "newDepIds (watchers s w) = {}" and sub: "subscribed w s" and inv: "tracking_inv s"
    and act: "active (watchers s w)"
    using assms(1) by (simp_all add: consistent_def)
  have ok1: "stack_ok ?s1" by simp
  obtain fs where c: "collects w fs ?s1 (snd (exec g trav ?s1))"
    using exec_collects[where w = w and g = g and s = ?s1 and trav = trav, OF assms(2) _ ok1] sub
    by auto
  have i: "tracking_inv (snd (exec g trav ?s1))"
    using inv by (intro exec_inv) simp
  have t: "target (snd (exec g trav ?s1)) = Some w"
    using exec_target[OF ok1, of g trav] by simp
  obtain F where F: "depends_of w (trace ?s') = depends_of w (trace s) @ F"
    "set (deps (watchers ?s' w)) = set F" "depIds (watchers ?s' w) = set F"
    "newDeps (watchers ?s' w) = []" "newDepIds (watchers ?s' w) = {}"
    "active (watchers ?s' w) = active (watchers s w)"
    "\<And>d. (w \<in> set (subs ?s' d)) = (d \<in> set F)"
    using get_with_collects[where gt = "exec g trav" and trav = trav, OF q sub inv i c t]
    unfolding get_def by blast
  have fr: "fired w s ?s' = F" using F(1) by (rule fired_append)
  have cons: "consistent w ?s'"
    using F act get_inv[OF inv, of trav w g] by (simp add: consistent_def subscribed_def)
  have nc: "callbacks_of w (trace (snd (notify env trav d ?s'))) = callbacks_of w (trace ?s')"
    if "d \<notin> set F" for d env
    using that F(7)[of d] by (intro notify_callbacks) simp
  show ?thesis
    unfolding fr using F(1,2,7) nc cons by blast
qed

lemma state0_consistent: "consistent w state0"
  by (simp add: consistent_def tracking_inv_def wf_watcher_def subscribed_def state0_def watcher0_def)

theorem get_subscribes_exactly_the_deps_read_witness:
  "consistent 1 state0 \<and>
   \<not> mentions 1 (Depend 0 (Eval 2 (Depend 5 (Return Null)) (Depend 3 (Depend 0 (Return (Num 1)))))) \<and>
   fired 1 state0 (snd (get trav0 1
      (Depend 0 (Eval 2 (Depend 5 (Return Null)) (Depend 3 (Depend 0 (Return (Num 1)))))) state0))
     = [0, 3, 0] \<and>
   set (deps (watchers (snd (get trav0 1
      (Depend 0 (Eval 2 (Depend 5 (Return Null)) (Depend 3 (Depend 0 (Return (Num 1)))))) state0)) 1))
     = {0, 3} \<and>
   1 \<in> set (subs (snd (get trav0 1
      (Depend 0 (Eval 2 (Depend 5 (Return Null)) (Depend 3 (Depend 0 (Return (Num 1)))))) state0)) 3) \<and>
   1 \<notin> set (subs (snd (get trav0 1
      (Depend 0 (Eval 2 (Depend 5 (Return Null)) (Depend 3 (Depend 0 (Return (Num 1)))))) state0)) 5)"
proof -
  let ?g = "Depend 0 (Eval 2 (Depend 5 (Return Null)) (Depend 3 (Depend 0 (Return (Num 1)))))"
  have m: "\<not> mentions 1 ?g" by simp
  have f: "fired 1 state0 (snd (get trav0 1 ?g state0)) = [0, 3, 0]"
    by code_simp
  note th = get_subscribes_exactly_the_deps_read[where w = 1 and s = state0 and g = ?g and trav = trav0,
        OF state0_consistent m]
  have c2: "set (deps (watchers (snd (get trav0 1 ?g state0)) 1)) =
            set (fired 1 state0 (snd (get trav0 1 ?g state0)))"
    and c3: "\<forall>d. (1 \<in> set (subs (snd (get trav0 1 ?g state0)) d)) =
            (d \<in> set (fired 1 state0 (snd (get trav0 1 ?g state0))))"
    using th[THEN conjunct2, THEN conjunct1] th[THEN conjunct2, THEN conjunct2, THEN conjunct1]
    by blast+
  have d: "set (deps (watchers (snd (get trav0 1 ?g state0)) 1)) = {0, 3}"
    unfolding c2 f by auto
  have s3: "1 \<in> set (subs (snd (get trav0 1 ?g state0)) 3)"
    and s5: "1 \<notin> set (subs (snd (get trav0 1 ?g state0)) 5)"
    unfolding c3[rule_format] f by simp_all
  show ?thesis
    by (intro conjI state0_consistent m f d s3 s5)
qed

text \<open>
  C1 as stated fails for a watcher that was torn down: it reads dep 0, which it held,
  \<open>addDep\<close> finds the id in \<open>depIds\<close> and does not subscribe, and after the evaluation the
  watcher holds dep 0 without being among its subscribers.
\<close>

theorem get_after_teardown_counterexample:
  "fired 1 (teardown 1 (snd (get trav0 1 (Depend 0 (Return (Num 1))) state0)))
     (snd (get trav0 1 (Depend 0 (Return (Num 1)))
        (teardown 1 (snd (get trav0 1 (Depend 0 (Return (Num 1))) state0))))) = [0] \<and>
   deps (watchers (snd (get trav0 1 (Depend 0 (Return (Num 1)))
        (teardown 1 (snd (get trav0 1 (Depend 0 (Return (Num 1))) state0))))) 1) = [0] \<and>
   1 \<notin> set (subs (snd (get trav0 1 (Depend 0 (Return (Num 1)))
        (teardown 1 (snd (get trav0 1 (Depend 0 (Return (Num 1))) state0))))) 0)"
  by code_simp

text \<open>
  An evaluation that re-enters its own watcher: the inner \<open>cleanupDeps\<close> empties the new
  generation, so dep 0, read before the inner call, is dropped by the outer one.
\<close>

lemma get_reentered_example:
  "fired 1 state0 (snd (get trav0 1
      (Depend 0 (Eval 1 (Depend 0 (Depend 1 (Return Null))) (Depend 1 (Return Null)))) state0))
     = [0, 0, 1, 1] \<and>
   deps (watchers (snd (get trav0 1
      (Depend 0 (Eval 1 (Depend 0 (Depend 1 (Return Null))) (Depend 1 (Return Null)))) state0)) 1)
     = [1] \<and>
   1 \<notin> set (subs (snd (get trav0 1
      (Depend 0 (Eval 1 (Depend 0 (Depend 1 (Return Null))) (Depend 1 (Return Null)))) state0)) 0)"
  by code_simp








lemma stateX_history:
  "subs (snd (get trav0 1 (reads [0] (Return (Num 1)))
           (snd (get trav0 2 (reads [0] (Return (Num 1))) stateS)))) 0 = subs stateX 0 \<and>
   watchers (snd (get trav0 1 (reads [0] (Return (Num 1)))
           (snd (get trav0 2 (reads [0] (Return (Num 1))) stateS)))) 1 = watchers stateX 1 \<and>
   watchers (snd (get trav0 1 (reads [0] (Return (Num 1)))
           (snd (get trav0 2 (reads [0] (Return (Num 1))) stateS)))) 2 = watchers stateX 2"
  by code_simp



lemma notified_of_simps [simp]:
  "notified_of [] = []"
  "notified_of (tr @ tr') = notified_of tr @ notified_of tr'"
  "notified_of (EvUpdate a # tr) = notified_of tr"
  "notified_of (EvQueue a # tr) = notified_of tr"
  "notified_of (EvHandleError x # tr) = notified_of tr"
  "notified_of (EvDepend a b # tr) = notified_of tr"
  "notified_of (EvNotify a # tr) = a # notified_of tr"
  "notified_of (EvCallback a v old # tr) = notified_of tr"
  "notified_of (EvWarn # tr) = notified_of tr"
  "notified_of (EvGetterCall a # tr) = notified_of tr"
  "notified_of (EvSetterCall a v # tr) = notified_of tr"
  "notified_of (EvCustomSetter a # tr) = notified_of tr"
  by (simp_all add: notified_of_def map_filter_append)

lemma notify_loop_notified:
  "notified_of (trace (snd (notify_loop env trav ws s))) = notified_of (trace s)"
proof (induction ws arbitrary: s)
  case (Cons a ws)
  obtain r s1 where u: "update env trav a s = (r, s1)" by (cases "update env trav a s")
  have "List.map_filter (\<lambda>e. case e of EvNotify d \<Rightarrow> Some d | _ \<Rightarrow> None) (trace (snd (update env trav a s))) =
        List.map_filter (\<lambda>e. case e of EvNotify d \<Rightarrow> Some d | _ \<Rightarrow> None) (trace s @ [EvUpdate a])"
    by (rule update_quiet) simp_all
  then have "notified_of (trace s1) = notified_of (trace s)"
    using u by (simp add: notified_of_def map_filter_append)
  then show ?case using u Cons.IH[of s1] by (cases r) simp_all
qed simp

lemma notify_notified:
  "notified_of (trace (snd (notify env trav d s))) = notified_of (trace s) @ [d]"
  by (simp add: notify_def Let_def notify_loop_notified)

lemma call_getter_fields [simp]:
  "fst (call_getter g s) = ustore s g"
  "cells (snd (call_getter g s)) = cells s" "ustore (snd (call_getter g s)) = ustore s"
  "objs (snd (call_getter g s)) = objs s" "subs (snd (call_getter g s)) = subs s"
  "watchers (snd (call_getter g s)) = watchers s" "dev (snd (call_getter g s)) = dev s"
  "trace (snd (call_getter g s)) = trace s @ [EvGetterCall g]"
  by (simp_all add: call_getter_def emit_def)

text \<open>
  C10. A reactive property defined over an accessor with a getter (\<open>g\<close>) and no setter:
  a write returns normally and changes nothing but the trace, whatever \<open>observe\<close> and the
  watchers would do: no cell, no user data, no object, no subscriber list, no watcher
  changes, and no dep notifies. The trace gains the call of the getter and, for a new
  value in a development build, the call of the \<open>customSetter\<close>.
\<close>

theorem setter_without_pre_setter_is_noop:
  assumes "c_getter (cells s c) = Some g" and "c_setter (cells s c) = None"
  shows "fst (reactiveSetter obs env trav c newVal s) = None \<and>
         cells (snd (reactiveSetter obs env trav c newVal s)) = cells s \<and>
         ustore (snd (reactiveSetter obs env trav c newVal s)) = ustore s \<and>
         objs (snd (reactiveSetter obs env trav c newVal s)) = objs s \<and>
         subs (snd (reactiveSetter obs env trav c newVal s)) = subs s \<and>
         watchers (snd (reactiveSetter obs env trav c newVal s)) = watchers s \<and>
         trace (snd (reactiveSetter obs env trav c newVal s)) =
           trace s @ [EvGetterCall g] @
           (if \<not> same_value newVal (ustore s g) \<and> dev s \<and> c_customSetter (cells s c)
            then [EvCustomSetter c] else []) \<and>
         notified_of (trace (snd (reactiveSetter obs env trav c newVal s))) = notified_of (trace s) \<and>
         reactiveSetter obs' env' trav' c newVal s = reactiveSetter obs env trav c newVal s"
  using assms
  by (simp add: reactiveSetter_def current_value_def call_customSetter_def Let_def split_beta
      emit_def)

lemma current_value_frame [simp]:
  "cells (snd (current_value C s)) = cells s" "ustore (snd (current_value C s)) = ustore s"
  "objs (snd (current_value C s)) = objs s" "subs (snd (current_value C s)) = subs s"
  "watchers (snd (current_value C s)) = watchers s" "dev (snd (current_value C s)) = dev s"
  "notified_of (trace (snd (current_value C s))) = notified_of (trace s)"
  by (simp_all add: current_value_def split: option.splits)

lemma call_customSetter_frame [simp]:
  "cells (call_customSetter C c s) = cells s" "ustore (call_customSetter C c s) = ustore s"
  "objs (call_customSetter C c s) = objs s" "subs (call_customSetter C c s) = subs s"
  "watchers (call_customSetter C c s) = watchers s"
  "notified_of (trace (call_customSetter C c s)) = notified_of (trace s)"
  by (simp_all add: call_customSetter_def emit_def)

lemma store_value_stores:
  "c_setter C = None \<Longrightarrow> c_val (cells (store_value C c newVal s) c) = newVal"
  "c_setter C = None \<Longrightarrow> ustore (store_value C c newVal s) = ustore s"
  "c_setter C = Some t \<Longrightarrow> ustore (store_value C c newVal s) t = newVal"
  "c_setter C = Some t \<Longrightarrow> trace (store_value C c newVal s) = trace s @ [EvSetterCall t newVal]"
  "c_setter C = Some t \<Longrightarrow> cells (store_value C c newVal s) = cells s"
  "notified_of (trace (store_value C c newVal s)) = notified_of (trace s)"
  by (simp_all add: store_value_def call_setter_def emit_def split: option.splits)

lemma observe_child_result:
  "c_childOb (cells (observe_child obs C c newVal s) c) =
     (if c_shallow C then None else fst (obs newVal s))"
  "c_shallow C \<Longrightarrow> observe_child obs C c newVal s = s\<lparr>cells := (cells s)(c := (cells s c)\<lparr>c_childOb := None\<rparr>)\<rparr>"
  "trace (observe_child obs C c newVal s) = (if c_shallow C then trace s else trace (snd (obs newVal s)))"
  by (simp_all add: observe_child_def split_beta)

text \<open>
  C4 (amended). A write of a value identical to the current one (\<open>NaN\<close> counted as equal to
  itself) stores nothing and notifies nothing. A write of another value to a property
  that has a setter or has no getter stores it (through the setter when there is one),
  sets \<open>childOb\<close> to what \<open>observe\<close> returns unless the property is shallow, and then calls
  \<open>notify\<close> on the dep of the property. A write of another value to a property with a
  getter and no setter stores nothing and notifies nothing.
\<close>

theorem setter_skips_same_value_else_stores_and_notifies:
  "(same_value newVal (fst (current_value (cells s c) s)) \<longrightarrow>
      reactiveSetter obs env trav c newVal s = (None, snd (current_value (cells s c) s)) \<and>
      cells (snd (reactiveSetter obs env trav c newVal s)) = cells s \<and>
      ustore (snd (reactiveSetter obs env trav c newVal s)) = ustore s \<and>
      notified_of (trace (snd (reactiveSetter obs env trav c newVal s))) = notified_of (trace s)) \<and>
   (\<not> same_value newVal (fst (current_value (cells s c) s)) \<and>
    (c_getter (cells s c) = None \<or> c_setter (cells s c) \<noteq> None) \<longrightarrow>
      reactiveSetter obs env trav c newVal s =
        notify env trav c
          (observe_child obs (cells s c) c newVal
            (store_value (cells s c) c newVal
              (call_customSetter (cells s c) c (snd (current_value (cells s c) s))))) \<and>
      (c_setter (cells s c) = None \<longrightarrow>
         c_val (cells (store_value (cells s c) c newVal
              (call_customSetter (cells s c) c (snd (current_value (cells s c) s)))) c) = newVal) \<and>
      (\<forall>t. c_setter (cells s c) = Some t \<longrightarrow>
         ustore (store_value (cells s c) c newVal
              (call_customSetter (cells s c) c (snd (current_value (cells s c) s)))) t = newVal) \<and>
      c_childOb (cells (observe_child obs (cells s c) c newVal
            (store_value (cells s c) c newVal
              (call_customSetter (cells s c) c (snd (current_value (cells s c) s))))) c) =
        (if c_shallow (cells s c) then None
         else fst (obs newVal (store_value (cells s c) c newVal
              (call_customSetter (cells s c) c (snd (current_value (cells s c) s)))))) \<and>
      notified_of (trace (snd (reactiveSetter obs env trav c newVal s))) =
        notified_of (trace (observe_child obs (cells s c) c newVal
            (store_value (cells s c) c newVal
              (call_customSetter (cells s c) c (snd (current_value (cells s c) s)))))) @ [c] \<and>
      (c_shallow (cells s c) \<longrightarrow>
         notified_of (trace (snd (reactiveSetter obs env trav c newVal s))) =
           notified_of (trace s) @ [c])) \<and>
   (\<not> same_value newVal (fst (current_value (cells s c) s)) \<and>
    c_getter (cells s c) \<noteq> None \<and> c_setter (cells s c) = None \<longrightarrow>
      reactiveSetter obs env trav c newVal s =
        (None, call_customSetter (cells s c) c (snd (current_value (cells s c) s))) \<and>
      cells (snd (reactiveSetter obs env trav c newVal s)) = cells s \<and>
      ustore (snd (reactiveSetter obs env trav c newVal s)) = ustore s \<and>
      notified_of (trace (snd (reactiveSetter obs env trav c newVal s))) = notified_of (trace s))"
proof (intro conjI impI allI, goal_cases)
  case 1 then show ?case by (simp add: reactiveSetter_def Let_def split_beta)
next
  case 2 then show ?case by (simp add: reactiveSetter_def Let_def split_beta)
next
  case 3 then show ?case by (simp add: reactiveSetter_def Let_def split_beta)
next
  case 4 then show ?case by (simp add: reactiveSetter_def Let_def split_beta)
next
  case 5 then show ?case by (auto simp: reactiveSetter_def Let_def split_beta)
next
  case 6 then show ?case by (simp add: store_value_stores)
next
  case (7 t) then show ?case by (simp add: store_value_stores)
next
  case 8 then show ?case by (simp add: observe_child_result)
next
  case 9 then show ?case
    by (auto simp: reactiveSetter_def Let_def split_beta notify_notified)
next
  case 10 then show ?case
    by (auto simp: reactiveSetter_def Let_def split_beta notify_notified observe_child_result
        store_value_stores)
next
  case 11 then show ?case by (auto simp: reactiveSetter_def Let_def split_beta)
next
  case 12 then show ?case by (auto simp: reactiveSetter_def Let_def split_beta)
next
  case 13 then show ?case by (auto simp: reactiveSetter_def Let_def split_beta)
next
  case 14 then show ?case by (auto simp: reactiveSetter_def Let_def split_beta)
qed

theorem setter_without_pre_setter_is_noop_witness:
  "c_getter (cells world0 7) = Some 0 \<and> c_setter (cells world0 7) = None \<and>
   fst (reactiveSetter obs0 env0 trav0 7 (Num 2) world0) = None \<and>
   ustore (snd (reactiveSetter obs0 env0 trav0 7 (Num 2) world0)) 0 = Num 1 \<and>
   c_val (cells (snd (reactiveSetter obs0 env0 trav0 7 (Num 2) world0)) 7) = Num 1 \<and>
   trace (snd (reactiveSetter obs0 env0 trav0 7 (Num 2) world0)) = [EvGetterCall 0, EvCustomSetter 7] \<and>
   notified_of (trace (snd (reactiveSetter obs0 env0 trav0 7 (Num 2) world0))) = []"
proof -
  have p: "c_getter (cells world0 7) = Some 0" "c_setter (cells world0 7) = None"
    by (simp_all add: world0_def cell0_def)
  have e: "ustore world0 0 = Num 1" "c_val (cells world0 7) = Num 1" "trace world0 = []"
    "dev world0" "c_customSetter (cells world0 7)" "\<not> same_value (Num 2) (Num 1)"
    by (simp_all add: world0_def cell0_def same_value_def strict_eq_def)
  note th = setter_without_pre_setter_is_noop[where s = world0 and c = 7 and g = 0 and obs = obs0
      and env = env0 and trav = trav0 and newVal = "Num 2", OF p]
  show ?thesis
    using th p e by simp
qed

theorem setter_skips_same_value_else_stores_and_notifies_witness:
  "same_value NaN (fst (current_value (cells world0 9) world0)) \<and>
   reactiveSetter obs0 env0 trav0 9 NaN world0 = (None, world0) \<and>
   \<not> same_value (Num 2) (fst (current_value (cells world0 8) world0)) \<and>
   c_getter (cells world0 8) = None \<and> c_setter (cells world0 8) = None \<and>
   c_val (cells (snd (reactiveSetter obs0 env0 trav0 8 (Num 2) world0)) 8) = Num 2 \<and>
   notified_of (trace (snd (reactiveSetter obs0 env0 trav0 8 (Num 2) world0))) = [8] \<and>
   trace (snd (reactiveSetter obs0 env0 trav0 8 (Num 2) world0)) = [EvNotify 8, EvUpdate 1, EvQueue 1]"
proof -
  have a: "same_value NaN (fst (current_value (cells world0 9) world0))"
    "snd (current_value (cells world0 9) world0) = world0"
    by (simp_all add: world0_def cell0_def same_value_def strict_eq_def current_value_def)
  have b: "\<not> same_value (Num 2) (fst (current_value (cells world0 8) world0))"
    "c_getter (cells world0 8) = None" "c_setter (cells world0 8) = None"
    by (simp_all add: world0_def cell0_def same_value_def strict_eq_def current_value_def)
  have c: "c_val (cells (snd (reactiveSetter obs0 env0 trav0 8 (Num 2) world0)) 8) = Num 2"
    "trace (snd (reactiveSetter obs0 env0 trav0 8 (Num 2) world0)) = [EvNotify 8, EvUpdate 1, EvQueue 1]"
    "notified_of (trace (observe_child obs0 (cells world0 8) 8 (Num 2)
            (store_value (cells world0 8) 8 (Num 2)
              (call_customSetter (cells world0 8) 8 (snd (current_value (cells world0 8) world0)))))) = []"
    by code_simp+
  note th9 = setter_skips_same_value_else_stores_and_notifies[where s = world0 and c = 9 and obs = obs0
      and env = env0 and trav = trav0 and newVal = NaN, THEN conjunct1, rule_format, OF a(1)]
  note th8 = setter_skips_same_value_else_stores_and_notifies[where s = world0 and c = 8 and obs = obs0
      and env = env0 and trav = trav0 and newVal = "Num 2", THEN conjunct2, THEN conjunct1, rule_format,
      OF conjI[OF b(1) disjI1[OF b(2)]]]
  have n: "notified_of (trace (snd (reactiveSetter obs0 env0 trav0 8 (Num 2) world0))) = [8]"
    using th8[THEN conjunct2, THEN conjunct2, THEN conjunct2, THEN conjunct2, THEN conjunct1]
    unfolding c(3) by simp
  have r9: "reactiveSetter obs0 env0 trav0 9 NaN world0 = (None, world0)"
    using th9 a(2) by simp
  show ?thesis
    by (intro conjI a(1) r9 b c(1) n c(2))
qed

text \<open>
  C4 as stated fails for property \<open>b\<close>, defined over a getter without setter: 2 is not the
  current value 1, yet nothing is stored and no dep notifies.
\<close>

theorem setter_getter_only_counterexample:
  "\<not> same_value (Num 2) (fst (current_value (cells world0 7) world0)) \<and>
   fst (reactiveSetter obs0 env0 trav0 7 (Num 2) world0) = None \<and>
   fst (current_value (cells (snd (reactiveSetter obs0 env0 trav0 7 (Num 2) world0)) 7)
         (snd (reactiveSetter obs0 env0 trav0 7 (Num 2) world0))) = Num 1 \<and>
   c_val (cells (snd (reactiveSetter obs0 env0 trav0 7 (Num 2) world0)) 7) = Num 1 \<and>
   notified_of (trace (snd (reactiveSetter obs0 env0 trav0 7 (Num 2) world0))) = []"
  by code_simp



lemma set_op_Ref:
  "set_op obs env trav (Ref a) k val s =
     (if kind (objs s a) = ArrayObject \<and> isValidArrayIndex k then
        (case k of
           Index i \<Rightarrow>
             (case array_mutated obs env trav a (splice_set (elems (objs s a)) i val) (Some val) s of
                (Some e, s') \<Rightarrow> (Inl e, s')
              | (None, s') \<Rightarrow> (Inr val, s'))
         | Name n \<Rightarrow> (Inr val, s))
      else if has_key (objs s a) k \<and> \<not> in_object_prototype k then
        (case assign obs env trav a k val s of
           (Some e, s') \<Rightarrow> (Inl e, s')
         | (None, s') \<Rightarrow> (Inr val, s'))
      else if rootTracked s (objs s a) then
        (Inr val, if dev s then emit EvWarn s else s)
      else
        (case ob (objs s a) of
           None \<Rightarrow>
             (case assign obs env trav a k val s of
                (Some e, s') \<Rightarrow> (Inl e, s')
              | (None, s') \<Rightarrow> (Inr val, s'))
         | Some oid \<Rightarrow>
             (case defineReactive obs (ob_value (observers s oid)) k (Some val) s of
                None \<Rightarrow> (Inl OutsideModel, s)
              | Some s1 \<Rightarrow>
                  (case notify env trav oid s1 of
                     (Some e, s2) \<Rightarrow> (Inl (Raised e), s2)
                   | (None, s2) \<Rightarrow> (Inr val, s2)))))"
  by (simp add: set_op_def Let_def isUndef_def isPrimitive_def)




lemma del_Ref:
  "del obs env trav (Ref a) k s =
     (if kind (objs s a) = ArrayObject \<and> isValidArrayIndex k then
        (case k of
           Index i \<Rightarrow> array_mutated obs env trav a (splice_del (elems (objs s a)) i) None s
         | Name n \<Rightarrow> (None, s))
      else if rootTracked s (objs s a) then (None, if dev s then emit EvWarn s else s)
      else if \<not> hasOwn (objs s a) k then (None, s)
      else if (case props (objs s a) k of Some (Data v cfg) \<Rightarrow> \<not> cfg
                                        | Some (Accessor g t cfg) \<Rightarrow> \<not> cfg | _ \<Rightarrow> False)
      then (Some TypeError, s)
      else
        (let s1 = s\<lparr>objs := (objs s)(a := (objs s a)\<lparr>props := (props (objs s a))(k := None)\<rparr>)\<rparr>
         in case ob (objs s a) of
              None \<Rightarrow> (None, s1)
            | Some oid \<Rightarrow>
                (case notify env trav oid s1 of
                   (Some e, s2) \<Rightarrow> (Some (Raised e), s2)
                 | (None, s2) \<Rightarrow> (None, s2))))"
  by (simp add: del_def Let_def isUndef_def isPrimitive_def)

text \<open>
  C6 (amended). On \<open>undefined\<close>, \<open>null\<close> or a primitive, \<open>set\<close> warns (development build) and
  then throws a \<open>TypeError\<close>; \<open>del\<close> warns and throws a \<open>TypeError\<close> on \<open>undefined\<close> and \<open>null\<close>,
  and warns and returns on a primitive that has no own property \<open>key\<close>. On a root-tracked
  object (not an array with a valid index) \<open>del\<close> warns and returns; \<open>set\<close> warns and
  returns \<open>val\<close> unless the object has the key and it is not a key of \<open>Object.prototype\<close>,
  in which case it assigns directly. The warning changes only the trace.
\<close>

theorem set_del_on_unsuitable_targets:
  "(isUndef tg \<or> isPrimitive tg \<longrightarrow>
       set_op obs env trav tg k val s = (Inl TypeError, warned s)) \<and>
   (isUndef tg \<longrightarrow> del obs env trav tg k s = (Some TypeError, warned s)) \<and>
   (isPrimitive tg \<and>
    (\<forall>x. tg = Str x \<longrightarrow> k \<noteq> Name ''length'' \<and> (\<forall>i. k = Index i \<longrightarrow> length x \<le> i)) \<longrightarrow>
       del obs env trav tg k s = (None, warned s)) \<and>
   (rootTracked s (objs s a) \<and> \<not> (kind (objs s a) = ArrayObject \<and> isValidArrayIndex k) \<longrightarrow>
       del obs env trav (Ref a) k s = (None, warned s) \<and>
       (\<not> (has_key (objs s a) k \<and> \<not> in_object_prototype k) \<longrightarrow>
          set_op obs env trav (Ref a) k val s = (Inr val, warned s)) \<and>
       (has_key (objs s a) k \<and> \<not> in_object_prototype k \<longrightarrow>
          set_op obs env trav (Ref a) k val s =
            (case assign obs env trav a k val s of
               (Some e, s') \<Rightarrow> (Inl e, s') | (None, s') \<Rightarrow> (Inr val, s')))) \<and>
   objs (warned s) = objs s \<and> cells (warned s) = cells s \<and> subs (warned s) = subs s \<and>
   trace (warned s) = trace s @ (if dev s then [EvWarn] else [])"
proof (intro conjI impI, goal_cases)
  case 1
  then show ?case
    by (cases tg) (simp_all add: set_op_def isUndef_def isPrimitive_def warned_def Let_def)
next
  case 2
  then show ?case
    by (cases tg) (simp_all add: del_def isUndef_def isPrimitive_def warned_def Let_def)
next
  case 3
  then show ?case
    by (cases tg; cases k)
       (auto simp: del_def isUndef_def isPrimitive_def warned_def Let_def)
next
  case 4
  then show ?case by (auto simp: del_Ref warned_def)
next
  case 5
  then show ?case by (auto simp: set_op_Ref warned_def)
next
  case 6
  then show ?case by (auto simp: set_op_Ref warned_def)
qed (simp_all add: warned_def emit_def)

theorem set_del_on_unsuitable_targets_witness:
  "isUndef Undefined \<and>
   set_op obs0 env0 trav0 Undefined (Name ''a'') (Num 1) world1 = (Inl TypeError, warned world1) \<and>
   del obs0 env0 trav0 Undefined (Name ''a'') world1 = (Some TypeError, warned world1) \<and>
   isPrimitive (Num 3) \<and>
   del obs0 env0 trav0 (Num 3) (Name ''a'') world1 = (None, warned world1) \<and>
   rootTracked world1 (objs world1 2) \<and> kind (objs world1 2) = PlainObject \<and>
   \<not> has_key (objs world1 2) (Name ''z'') \<and>
   del obs0 env0 trav0 (Ref 2) (Name ''z'') world1 = (None, warned world1) \<and>
   set_op obs0 env0 trav0 (Ref 2) (Name ''z'') (Num 5) world1 = (Inr (Num 5), warned world1) \<and>
   trace (warned world1) = [EvWarn] \<and> objs (warned world1) = objs world1"
proof -
  have p: "isUndef Undefined" "isPrimitive (Num 3)" "rootTracked world1 (objs world1 2)"
    "kind (objs world1 2) = PlainObject" "\<not> has_key (objs world1 2) (Name ''z'')"
    "dev world1" "trace world1 = []" "\<not> isValidArrayIndex (Name ''z'')"
    by code_simp+
  note th = set_del_on_unsuitable_targets[where obs = obs0 and env = env0 and trav = trav0
      and s = world1 and a = 2]
  have a: "set_op obs0 env0 trav0 Undefined (Name ''a'') (Num 1) world1 = (Inl TypeError, warned world1)"
    using th[where tg = Undefined and k = "Name ''a''" and val = "Num 1", THEN conjunct1] p(1)
    by blast
  have b: "del obs0 env0 trav0 Undefined (Name ''a'') world1 = (Some TypeError, warned world1)"
    using th[where tg = Undefined and k = "Name ''a''" and val = "Num 1", THEN conjunct2,
        THEN conjunct1] p(1)
    by blast
  have c: "del obs0 env0 trav0 (Num 3) (Name ''a'') world1 = (None, warned world1)"
    using th[where tg = "Num 3" and k = "Name ''a''" and val = "Num 1", THEN conjunct2,
        THEN conjunct2, THEN conjunct1] p(2)
    by simp
  have d: "del obs0 env0 trav0 (Ref 2) (Name ''z'') world1 = (None, warned world1)"
    "set_op obs0 env0 trav0 (Ref 2) (Name ''z'') (Num 5) world1 = (Inr (Num 5), warned world1)"
    using th[where tg = Undefined and k = "Name ''z''" and val = "Num 5", THEN conjunct2,
        THEN conjunct2, THEN conjunct2, THEN conjunct1] p
    by simp_all
  have w: "trace (warned world1) = [EvWarn]" "objs (warned world1) = objs world1"
    using th[where tg = Undefined and k = "Name ''z''" and val = "Num 5"] p(6,7) by simp_all
  show ?thesis
    by (intro conjI p(1) a b p(2) c p(3) p(4) p(5) d w)
qed

text \<open>C6 as stated fails: \<open>set\<close> on \<open>undefined\<close> and \<open>del\<close> on \<open>null\<close> throw.\<close>

theorem set_on_undefined_counterexample:
  "isUndef Undefined \<and> dev world1 \<and>
   fst (set_op obs0 env0 trav0 Undefined (Name ''a'') (Num 1) world1) = Inl TypeError \<and>
   trace (snd (set_op obs0 env0 trav0 Undefined (Name ''a'') (Num 1) world1)) = [EvWarn] \<and>
   fst (del obs0 env0 trav0 Null (Name ''a'') world1) = Some TypeError"
  by code_simp

end
